theory Spec2Isabelle
  imports Complex_Main
begin

section \<open>Data model\<close>

text \<open>
  An item is the raw record fetched from the remote source. Every property other than the
  id may be missing on the JavaScript object, which is \<open>None\<close> here. Ids, times and
  scores are integers.
\<close>

record item =
  i_id :: int
  i_by :: "string option"
  i_time :: "int option"
  i_deleted :: "bool option"
  i_dead :: "bool option"
  i_text :: "string option"
  i_title :: "string option"
  i_url :: "string option"
  i_score :: "int option"
  i_kids :: "int list option"

text \<open>
  A tree node is the object \<open>{id, depth, parentId, children}\<close> made by buildTree
  (modules/data.js). The layouts add further properties to the node objects they are given
  (size, x, y, width, height, cx, cy); \<open>props\<close> holds those, and is \<open>()\<close> for the
  nodes of the full tree.
\<close>

datatype 'a node =
  Node (nid: int) (depth: nat) (parentId: "int option") (props: 'a) (children: "'a node list")

record focus =
  ancestors :: "int set"
  descendants :: "int set"
  active :: bool

text \<open>
  The part of the global state object (modules/state.js) that the tree, metric, visibility
  and focus functions read or write.
\<close>

record state =
  nodes :: "int \<rightharpoonup> item"
  treeIndex :: "int \<rightharpoonup> unit node"
  depthMap :: "int \<rightharpoonup> nat"
  descCount :: "int \<rightharpoonup> nat"
  subtreeSize :: "int \<rightharpoonup> nat"
  collapsed :: "int set"
  focus :: focus

text \<open>All nodes of a tree in pre-order, each with its subtree, and their ids.\<close>

fun subtrees :: "'a node \<Rightarrow> 'a node list" where
  "subtrees (Node i d p f cs) = Node i d p f cs # concat (map subtrees cs)"

definition ids :: "'a node \<Rightarrow> int list" where
  "ids t = map nid (subtrees t)"

text \<open>A leaf of the full tree: id, depth and parent id.\<close>

definition leaf :: "int \<Rightarrow> nat \<Rightarrow> int \<Rightarrow> unit node" where
  "leaf i d p = Node i d (Some p) () []"

section \<open>Tree builder (modules/data.js, buildTree)\<close>

text \<open>
  buildTree recurses along the \<open>kids\<close> of the items and does not end on a cyclic item
  map, so the model takes fuel, one unit for each nested call that finds its item: the
  outer \<open>None\<close> is a run that does not return within the fuel, the inner \<open>None\<close>
  is the JavaScript \<open>null\<close>. The parameters \<open>dep\<close> and \<open>par\<close> are the
  source's \<open>depth\<close> and \<open>parentId\<close>. buildKids is the loop over \<open>item.kids\<close>,
  which runs only when the property is present and not empty (itemKids).

  The source stores the node object in the tree index before the loop fills its children
  array; the index holds a reference, so the entry read after the call is the node with
  its children. The model stores the finished node after the loop.
\<close>

definition itemKids :: "item \<Rightarrow> int list" where
  "itemKids item = (case i_kids item of None \<Rightarrow> [] | Some ks \<Rightarrow> ks)"

fun buildTree :: "nat \<Rightarrow> int \<Rightarrow> state \<Rightarrow> nat \<Rightarrow> int option \<Rightarrow> (unit node option \<times> state) option"
and buildKids :: "nat \<Rightarrow> int list \<Rightarrow> state \<Rightarrow> nat \<Rightarrow> int \<Rightarrow> (unit node list \<times> state) option"
where
  "buildTree fuel i st dep par =
    (case nodes st i of
       None \<Rightarrow> Some (None, st)
     | Some item \<Rightarrow>
        (case fuel of
           0 \<Rightarrow> None
         | Suc fuel' \<Rightarrow>
            (let st1 = st\<lparr>depthMap := (depthMap st)(i \<mapsto> dep)\<rparr> in
             case buildKids fuel' (itemKids item) st1 (dep + 1) i of
               None \<Rightarrow> None
             | Some (cs, st2) \<Rightarrow>
                (let node = Node i dep par () cs in
                 Some (Some node, st2\<lparr>treeIndex := (treeIndex st2)(i \<mapsto> node)\<rparr>)))))"
| "buildKids fuel [] st dep par = Some ([], st)"
| "buildKids fuel (kid # rest) st dep par =
    (case buildTree fuel kid st dep (Some par) of
       None \<Rightarrow> None
     | Some (child, st1) \<Rightarrow>
        (case buildKids fuel rest st1 dep par of
           None \<Rightarrow> None
         | Some (cs, st2) \<Rightarrow> Some ((case child of None \<Rightarrow> cs | Some c \<Rightarrow> c # cs), st2)))"

declare buildTree.simps [simp del]

text \<open>
  An item map has no cycle along \<open>kids\<close> when some rank falls from every item to each
  of its kids that has an item.
\<close>

definition ranked :: "(int \<rightharpoonup> item) \<Rightarrow> (int \<Rightarrow> nat) \<Rightarrow> bool" where
  "ranked m r = (\<forall>i it k. m i = Some it \<longrightarrow> k \<in> set (itemKids it) \<longrightarrow> m k \<noteq> None \<longrightarrow> r k < r i)"

text \<open>
  What the builder makes of an item map below a node: every node stands for an item, and
  its children are, in order, the kids of that item that have an item themselves.
\<close>

definition builtFrom :: "(int \<rightharpoonup> item) \<Rightarrow> 'a node \<Rightarrow> bool" where
  "builtFrom m t = (\<forall>n \<in> set (subtrees t). \<exists>it. m (nid n) = Some it \<and>
     map nid (children n) = filter (\<lambda>k. m k \<noteq> None) (itemKids it))"

section \<open>Derived metrics (modules/data.js, computeDescendants)\<close>

text \<open>
  computeDescendants returns the number of strict descendants of the node and writes it,
  and the subtree size, into the two maps of the state under the node's id, after the loop
  over the children. descendantsLoop is that loop, \<open>total'\<close> the running \<open>total\<close>.
\<close>

fun computeDescendants :: "'a node \<Rightarrow> state \<Rightarrow> nat \<times> state"
and descendantsLoop :: "'a node list \<Rightarrow> nat \<Rightarrow> state \<Rightarrow> nat \<times> state" where
  "computeDescendants (Node i d p f cs) st =
     (let (total', st1) = descendantsLoop cs 0 st;
          st2 = st1\<lparr>descCount := (descCount st1)(i \<mapsto> total')\<rparr>;
          st3 = st2\<lparr>subtreeSize := (subtreeSize st2)(i \<mapsto> total' + 1)\<rparr>
      in (total', st3))"
| "descendantsLoop [] total' st = (total', st)"
| "descendantsLoop (c # cs) total' st =
     (let (n, st1) = computeDescendants c st
      in descendantsLoop cs (total' + (1 + n)) st1)"

text \<open>The number of strict descendants of a node, read off the tree.\<close>

fun strictDescendants :: "'a node \<Rightarrow> nat" where
  "strictDescendants (Node i d p f cs) = (\<Sum>c\<leftarrow>cs. strictDescendants c + 1)"

text \<open>The state before a load: every map and set empty, no focus.\<close>

definition emptyState :: state where
  "emptyState = \<lparr>nodes = Map.empty, treeIndex = Map.empty, depthMap = Map.empty,
     descCount = Map.empty, subtreeSize = Map.empty, collapsed = {},
     focus = \<lparr>ancestors = {}, descendants = {}, active = False\<rparr>\<rparr>"

text \<open>An item that has only an id and kids, as in the scenarios of the specification.\<close>

definition bareItem :: "int \<Rightarrow> int list \<Rightarrow> item" where
  "bareItem i ks = \<lparr>i_id = i, i_by = None, i_time = None, i_deleted = None, i_dead = None,
     i_text = None, i_title = None, i_url = None, i_score = None, i_kids = Some ks\<rparr>"

definition scenarioState :: state where
  "scenarioState = emptyState\<lparr>nodes :=
     [1 \<mapsto> bareItem 1 [2, 3], 2 \<mapsto> bareItem 2 [], 3 \<mapsto> bareItem 3 []]\<rparr>"

text \<open>An item map whose root names a kid, 9, that has no item; item 3 has no kids property.\<close>

definition gapState :: state where
  "gapState = emptyState\<lparr>nodes :=
     [1 \<mapsto> bareItem 1 [2, 9, 3], 2 \<mapsto> bareItem 2 [], 3 \<mapsto> (bareItem 3 [])\<lparr>i_kids := None\<rparr>]\<rparr>"

definition scenarioTree :: "unit node" where
  "scenarioTree = Node 1 0 None () [Node 2 1 (Some 1) () [], Node 3 1 (Some 1) () []]"

section \<open>Visibility filter (modules/data.js, buildVisibleTree)\<close>

text \<open>
  On values: the copy has the properties of the node (the spread \<open>{...node}\<close>) and a
  fresh children array, filled with the copies of the children unless the node's id is in
  \<open>state.collapsed\<close>. The state is only read.
\<close>

fun buildVisibleTree :: "'a node \<Rightarrow> state \<Rightarrow> 'a node" where
  "buildVisibleTree (Node i d p f cs) st =
     Node i d p f (if i \<notin> collapsed st then map (\<lambda>child. buildVisibleTree child st) cs else [])"

text \<open>
  On a store, to tell a copy from the object it was made of: node objects and arrays live
  at references, a node object holds the reference of its children array, and a new
  object or array takes the next unused reference.
\<close>

type_synonym ref = nat

record 'a nodeObject =
  o_id :: int
  o_depth :: nat
  o_parentId :: "int option"
  o_props :: 'a
  o_children :: ref

record 'a heap =
  objects :: "ref \<rightharpoonup> 'a nodeObject"
  arrays :: "ref \<rightharpoonup> ref list"
  nextRef :: ref

definition allocArray :: "'a heap \<Rightarrow> ref \<times> 'a heap" where
  "allocArray h = (nextRef h, h\<lparr>arrays := (arrays h)(nextRef h \<mapsto> []), nextRef := nextRef h + 1\<rparr>)"

definition allocObject :: "'a nodeObject \<Rightarrow> 'a heap \<Rightarrow> ref \<times> 'a heap" where
  "allocObject obj h = (nextRef h, h\<lparr>objects := (objects h)(nextRef h \<mapsto> obj), nextRef := nextRef h + 1\<rparr>)"

definition push :: "ref \<Rightarrow> ref \<Rightarrow> 'a heap \<Rightarrow> 'a heap option" where
  "push arr v h =
     (case arrays h arr of
        None \<Rightarrow> None
      | Some vs \<Rightarrow> Some (h\<lparr>arrays := (arrays h)(arr \<mapsto> vs @ [v])\<rparr>))"

text \<open>
  buildVisibleTreeH is buildVisibleTree on the store. \<open>{...node, children: []}\<close>
  allocates the empty array and then the object that copies the node's properties and
  holds the new array; \<open>visible.children.push\<close> appends to that array. The loop
  visibleLoopH runs over the elements that \<open>node.children\<close> has when the loop starts.
  The recursion follows references, so it takes fuel; \<open>None\<close> is a run that does not
  return within the fuel or that reads a reference that holds no node or array.
\<close>

fun buildVisibleTreeH :: "nat \<Rightarrow> ref \<Rightarrow> state \<Rightarrow> 'a heap \<Rightarrow> (ref \<times> 'a heap) option"
and visibleLoopH :: "nat \<Rightarrow> ref list \<Rightarrow> ref \<Rightarrow> state \<Rightarrow> 'a heap \<Rightarrow> 'a heap option" where
  "buildVisibleTreeH 0 node st h = None"
| "buildVisibleTreeH (Suc fuel) node st h =
     (case objects h node of
        None \<Rightarrow> None
      | Some obj \<Rightarrow>
         (let (arr, h1) = allocArray h;
              (visible, h2) = allocObject (obj\<lparr>o_children := arr\<rparr>) h1
          in if o_id obj \<notin> collapsed st then
               (case arrays h2 (o_children obj) of
                  None \<Rightarrow> None
                | Some kids \<Rightarrow>
                   (case visibleLoopH fuel kids arr st h2 of
                      None \<Rightarrow> None
                    | Some h3 \<Rightarrow> Some (visible, h3)))
             else Some (visible, h2)))"
| "visibleLoopH fuel [] arr st h = Some h"
| "visibleLoopH fuel (child # rest) arr st h =
     (case buildVisibleTreeH fuel child st h of
        None \<Rightarrow> None
      | Some (v, h1) \<Rightarrow>
         (case push arr v h1 of
            None \<Rightarrow> None
          | Some h2 \<Rightarrow> visibleLoopH fuel rest arr st h2))"

text \<open>
  The store holds the tree \<open>t\<close> at the reference \<open>r\<close>, in cells from \<open>lo\<close> up to
  \<open>hi\<close> (excluded); \<open>heapOK\<close>: no cell at or above the next unused reference is in use.
\<close>

fun reprIn :: "ref \<Rightarrow> ref \<Rightarrow> 'a heap \<Rightarrow> ref \<Rightarrow> 'a node \<Rightarrow> bool" where
  "reprIn lo hi h r (Node i d p f cs) =
     (case objects h r of
        None \<Rightarrow> False
      | Some obj \<Rightarrow>
          lo \<le> r \<and> r < hi \<and> lo \<le> o_children obj \<and> o_children obj < hi \<and>
          o_id obj = i \<and> o_depth obj = d \<and> o_parentId obj = p \<and> o_props obj = f \<and>
          (case arrays h (o_children obj) of
             None \<Rightarrow> False
           | Some rs \<Rightarrow> list_all2 (\<lambda>r' c. reprIn lo hi h r' c) rs cs))"

definition repr :: "'a heap \<Rightarrow> ref \<Rightarrow> 'a node \<Rightarrow> bool" where
  "repr h r t = reprIn 0 (nextRef h) h r t"

definition heapOK :: "'a heap \<Rightarrow> bool" where
  "heapOK h = (\<forall>a. nextRef h \<le> a \<longrightarrow> objects h a = None \<and> arrays h a = None)"

text \<open>
  Between two stores, every cell below \<open>n\<close> is unchanged, but for the arrays at the
  references in \<open>X\<close>.
\<close>

definition unchangedBelow :: "ref \<Rightarrow> ref set \<Rightarrow> 'a heap \<Rightarrow> 'a heap \<Rightarrow> bool" where
  "unchangedBelow n X h h' =
     (\<forall>a. a < n \<longrightarrow> objects h' a = objects h a \<and> (a \<notin> X \<longrightarrow> arrays h' a = arrays h a))"

text \<open>The scenario tree in a store: the three node objects, then their children arrays.\<close>

definition scenarioHeap :: "unit heap" where
  "scenarioHeap = \<lparr>
     objects = [0 \<mapsto> \<lparr>o_id = 1, o_depth = 0, o_parentId = None, o_props = (), o_children = 3\<rparr>,
                1 \<mapsto> \<lparr>o_id = 2, o_depth = 1, o_parentId = Some 1, o_props = (), o_children = 4\<rparr>,
                2 \<mapsto> \<lparr>o_id = 3, o_depth = 1, o_parentId = Some 1, o_props = (), o_children = 5\<rparr>],
     arrays = [3 \<mapsto> [1, 2], 4 \<mapsto> [], 5 \<mapsto> []],
     nextRef = 6\<rparr>"

section \<open>Focus (modules/focus.js, computeFocus)\<close>

text \<open>
  The \<open>while\<close> loop climbs the parent ids through the tree index. It does not end on
  an index whose parent ids form a cycle, so it is a partial function: \<open>None\<close> is a
  run that does not return. The loop ends when the current node has no parent id, or
  (\<open>break\<close>) when the index has no node for the parent id just added.
\<close>

partial_function (option) ancestorsLoop ::
  "(int \<rightharpoonup> unit node) \<Rightarrow> unit node \<Rightarrow> int set \<Rightarrow> int set option" where
  "ancestorsLoop index current anc =
     (case parentId current of
        None \<Rightarrow> Some anc
      | Some parentId' \<Rightarrow>
         (case index parentId' of
            None \<Rightarrow> Some (insert parentId' anc)
          | Some next \<Rightarrow> ancestorsLoop index next (insert parentId' anc)))"

text \<open>walk adds the id of every child and then walks that child.\<close>

fun walk :: "'a node \<Rightarrow> int set \<Rightarrow> int set"
and walkChildren :: "'a node list \<Rightarrow> int set \<Rightarrow> int set" where
  "walk (Node i d p f cs) desc = walkChildren cs desc"
| "walkChildren [] desc = desc"
| "walkChildren (child # rest) desc = walkChildren rest (walk child (insert (nid child) desc))"

text \<open>
  computeFocus clears the focus first. The selected id may be null or undefined
  (\<open>None\<close>); \<open>!id\<close> also holds for the id 0, and \<open>!state.treeIndex.size\<close> for the
  empty index. The result is \<open>None\<close> when the loop over the ancestors does not return.
\<close>

definition clearedFocus :: focus where
  "clearedFocus = \<lparr>ancestors = {}, descendants = {}, active = False\<rparr>"

definition computeFocus :: "state \<Rightarrow> int option \<Rightarrow> state option" where
  "computeFocus st selectedId =
     (let st0 = st\<lparr>focus := clearedFocus\<rparr> in
      case selectedId of
        None \<Rightarrow> Some st0
      | Some i \<Rightarrow>
          if i = 0 \<or> treeIndex st = Map.empty then Some st0
          else
            (case treeIndex st i of
               None \<Rightarrow> Some st0
             | Some node \<Rightarrow>
                (case ancestorsLoop (treeIndex st) node {} of
                   None \<Rightarrow> None
                 | Some anc \<Rightarrow>
                    Some (st0\<lparr>focus := \<lparr>ancestors = anc, descendants = walk node {},
                                         active = True\<rparr>\<rparr>))))"

text \<open>
  The tree side of the focus: every node of a tree with the ids of its strict ancestors,
  the nearest first and the root last; the ids of the strict descendants of a node; parent
  ids that agree with the tree; and the index that maps each id of the tree to its node.
\<close>

fun withAncestors :: "int list \<Rightarrow> 'a node \<Rightarrow> ('a node \<times> int list) list" where
  "withAncestors as (Node i d p f cs) =
     (Node i d p f cs, as) # concat (map (withAncestors (i # as)) cs)"

definition strictDescendantIds :: "'a node \<Rightarrow> int list" where
  "strictDescendantIds n = concat (map ids (children n))"

fun parentsOK :: "int option \<Rightarrow> 'a node \<Rightarrow> bool" where
  "parentsOK par (Node i d p f cs) = (p = par \<and> (\<forall>c \<in> set cs. parentsOK (Some i) c))"

definition indexOf :: "'a node \<Rightarrow> (int \<rightharpoonup> 'a node)" where
  "indexOf t = map_of (map (\<lambda>n. (nid n, n)) (subtrees t))"

text \<open>A thread whose root has the id 0, with its index.\<close>

definition zeroTree :: "unit node" where
  "zeroTree = Node 0 0 None () [leaf 1 1 0]"

definition zeroState :: state where
  "zeroState = emptyState\<lparr>treeIndex := indexOf zeroTree\<rparr>"

section \<open>Cache diff (modules/db.js, fingerprint and diffThreads)\<close>

text \<open>
  Array.prototype.join turns every element into a string. The numbers here are integers,
  which JavaScript prints in decimal (for magnitudes below \<open>10^21\<close>), with a minus sign
  when negative.
\<close>

fun showNat :: "nat \<Rightarrow> string" where
  "showNat n = (if n < 10 then [''0123456789'' ! n] else showNat (n div 10) @ [''0123456789'' ! (n mod 10)])"

declare showNat.simps [simp del]

definition showInt :: "int \<Rightarrow> string" where
  "showInt i = (if i < 0 then CHR ''-'' # showNat (nat (- i)) else showNat (nat i))"

fun join :: "string \<Rightarrow> string list \<Rightarrow> string" where
  "join sep [] = []"
| "join sep [x] = x"
| "join sep (x # y # ys) = x @ sep @ join sep (y # ys)"

text \<open>
  \<open>item.by || ""\<close>: a missing or empty string gives the empty string.
  \<open>item.time || ""\<close>: a missing number or 0 gives the empty string.
  \<open>item.deleted ? "1" : "0"\<close>: only a true flag gives 1.
  \<open>item.kids ? item.kids.length : 0\<close>: an array, also an empty one, gives its length.
\<close>

definition orEmpty :: "string option \<Rightarrow> string" where
  "orEmpty s = (case s of None \<Rightarrow> [] | Some v \<Rightarrow> v)"

definition numOrEmpty :: "int option \<Rightarrow> string" where
  "numOrEmpty n = (case n of None \<Rightarrow> [] | Some v \<Rightarrow> if v = 0 then [] else showInt v)"

definition flag :: "bool option \<Rightarrow> string" where
  "flag b = (if b = Some True then ''1'' else ''0'')"

definition kidsLength :: "int list option \<Rightarrow> string" where
  "kidsLength ks = (case ks of None \<Rightarrow> showInt 0 | Some l \<Rightarrow> showInt (int (length l)))"

definition fingerprint :: "item \<Rightarrow> string" where
  "fingerprint item = join ''|''
     [showInt (i_id item), orEmpty (i_by item), numOrEmpty (i_time item),
      flag (i_deleted item), flag (i_dead item), orEmpty (i_text item),
      orEmpty (i_title item), orEmpty (i_url item), numOrEmpty (i_score item),
      kidsLength (i_kids item)]"

record diff =
  added :: nat
  updated :: nat

text \<open>
  diffThreads: the first loop fills oldMap with the fingerprint of every old item under its
  id, a later item replacing an earlier one of the same id; the second loop counts.
  \<open>!prev\<close> holds for a missing entry and for the empty string. A list argument that is
  null or undefined is \<open>None\<close> and stands for the empty list.
\<close>

fun oldMapLoop :: "item list \<Rightarrow> (int \<rightharpoonup> string) \<Rightarrow> (int \<rightharpoonup> string)" where
  "oldMapLoop [] oldMap = oldMap"
| "oldMapLoop (item # rest) oldMap = oldMapLoop rest (oldMap(i_id item \<mapsto> fingerprint item))"

fun diffLoop :: "(int \<rightharpoonup> string) \<Rightarrow> item list \<Rightarrow> diff \<Rightarrow> diff" where
  "diffLoop oldMap [] d = d"
| "diffLoop oldMap (item # rest) d =
     (let prev = oldMap (i_id item) in
      if prev = None \<or> prev = Some [] then diffLoop oldMap rest (d\<lparr>added := added d + 1\<rparr>)
      else if prev \<noteq> Some (fingerprint item) then diffLoop oldMap rest (d\<lparr>updated := updated d + 1\<rparr>)
      else diffLoop oldMap rest d)"

definition orEmptyList :: "'a list option \<Rightarrow> 'a list" where
  "orEmptyList xs = (case xs of None \<Rightarrow> [] | Some l \<Rightarrow> l)"

definition diffThreads :: "item list option \<Rightarrow> item list option \<Rightarrow> diff" where
  "diffThreads oldItems newItems =
     diffLoop (oldMapLoop (orEmptyList oldItems) Map.empty) (orEmptyList newItems)
       \<lparr>added = 0, updated = 0\<rparr>"

text \<open>The old item that the diff compares an id with: the last one of that id.\<close>

definition oldItemOf :: "item list \<Rightarrow> int \<Rightarrow> item option" where
  "oldItemOf olds i = find (\<lambda>item. i_id item = i) (rev olds)"

text \<open>An item with an id and a score only, as in the scenario of the specification.\<close>

definition scoreItem :: "int \<Rightarrow> int \<Rightarrow> item" where
  "scoreItem i s = \<lparr>i_id = i, i_by = None, i_time = None, i_deleted = None, i_dead = None,
     i_text = None, i_title = None, i_url = None, i_score = Some s, i_kids = None\<rparr>"

section \<open>Layouts: shared shapes\<close>

text \<open>
  The properties a layout writes on a node object. JavaScript numbers are modelled as
  exact reals; IEEE rounding is not part of the model.
\<close>

record layoutFields =
  n_size :: nat
  n_x :: real
  n_y :: real
  n_width :: real
  n_height :: real
  n_cx :: real
  n_cy :: real

record bounds =
  b_width :: real
  b_height :: real

text \<open>
  The result of compute. \<open>r_nodes\<close> holds the node objects in the order of
  \<open>nodes.push\<close>. A link \<open>{from, to, depth}\<close> is kept as the two ids and the depth.
\<close>

record layout =
  r_nodes :: "layoutFields node list"
  r_links :: "(int \<times> int \<times> nat) list"
  r_bounds :: bounds
  r_maxDepth :: nat

text \<open>
  computeSizes (the same function in both layout modules) writes \<open>size\<close> on every node:
  1 plus the sizes of the children. sizesLoop is its loop; the size the source returns is
  the \<open>props\<close> of the node returned here. Whatever an earlier layout left on the node
  is overwritten by place before it is read, and is not carried along.
\<close>

fun computeSizes :: "'a node \<Rightarrow> nat node"
and sizesLoop :: "'a node list \<Rightarrow> nat \<Rightarrow> nat \<times> nat node list" where
  "computeSizes (Node i d p f cs) = (let (size', cs') = sizesLoop cs 1 in Node i d p size' cs')"
| "sizesLoop [] size' = (size', [])"
| "sizesLoop (child # rest) size' =
     (let child' = computeSizes child;
          (size'', rest') = sizesLoop rest (size' + props child')
      in (size'', child' # rest'))"

text \<open>
  place pushes the node before it visits the children, and the pushed object is the one
  whose children are then placed: the pushed list is the pre-order list of the placed
  tree, and maxDepth the running maximum of the depths along it.
\<close>

definition maxDepthOf :: "'a node list \<Rightarrow> nat" where
  "maxDepthOf ns = foldl (\<lambda>maxDepth n. max maxDepth (depth n)) 0 ns"

section \<open>Nested bands (unnamed/part_001: the icicle layout)\<close>

definition depthHeight :: real where "depthHeight = 110"
definition unitWidth :: real where "unitWidth = 12"

fun iciclePlace :: "nat node \<Rightarrow> real \<Rightarrow> real \<Rightarrow> real \<Rightarrow> layoutFields node"
and iciclePlaceChildren :: "nat node list \<Rightarrow> real \<Rightarrow> real \<Rightarrow> real \<Rightarrow> nat \<Rightarrow> layoutFields node list" where
  "iciclePlace (Node i d p size' cs) x y width' =
     (let height' = depthHeight in
      Node i d p
        \<lparr>n_size = size', n_x = x, n_y = y, n_width = width', n_height = height',
         n_cx = x + width' / 2, n_cy = y + height' / 2\<rparr>
        (iciclePlaceChildren cs x (y + height') width' size'))"
| "iciclePlaceChildren [] cursor y width' nodeSize = []"
| "iciclePlaceChildren (child # rest) cursor y width' nodeSize =
     (let childWidth = (width' * real (props child)) / real nodeSize in
      iciclePlace child cursor y childWidth #
      iciclePlaceChildren rest (cursor + childWidth) y width' nodeSize)"

definition icicleCompute :: "'a node \<Rightarrow> layout" where
  "icicleCompute root' =
     (let sized = computeSizes root';
          totalWidth = real (props sized) * unitWidth;
          placed = iciclePlace sized 0 0 totalWidth;
          maxDepth = maxDepthOf (subtrees placed)
      in \<lparr>r_nodes = subtrees placed, r_links = [],
          r_bounds = \<lparr>b_width = max totalWidth 1, b_height = (real maxDepth + 1) * depthHeight\<rparr>,
          r_maxDepth = maxDepth\<rparr>)"

section \<open>Weighted flow columns (modules/layouts/layout-sankey.js)\<close>

definition columnWidth :: real where "columnWidth = 140"
definition columnGap :: real where "columnGap = 120"
definition unitHeight :: real where "unitHeight = 10"
definition minHeight :: real where "minHeight = 12"
definition nodeGap :: real where "nodeGap = 4"

text \<open>
  The locals of place for a node with at least one child: totalGap and available from the
  number of children and the node's height, childHeights from the children's sizes, the
  node's size and available, sum and scale from childHeights.
\<close>

definition totalGap :: "nat \<Rightarrow> real" where
  "totalGap childCount = (real childCount - 1) * nodeGap"

definition available :: "nat \<Rightarrow> real \<Rightarrow> real" where
  "available childCount height' = max (height' - totalGap childCount) minHeight"

definition childHeights :: "nat list \<Rightarrow> nat \<Rightarrow> real \<Rightarrow> real list" where
  "childHeights childSizes nodeSize avail =
     map (\<lambda>childSize. max minHeight (avail * (real childSize / real nodeSize))) childSizes"

definition scale :: "real list \<Rightarrow> real \<Rightarrow> real" where
  "scale heights avail =
     (let sum = foldl (+) 0 heights in if sum > 0 then min 1 (avail / sum) else 1)"

text \<open>
  sankeyPlaceChildren is the \<open>forEach\<close> over the children; it reads
  \<open>childHeights[index]\<close>, here the head of the list of the heights that remain.
  childHeights has one entry for each child, so the heights never run out first.
\<close>

fun sankeyPlace :: "nat node \<Rightarrow> real \<Rightarrow> real \<Rightarrow> real \<Rightarrow> layoutFields node"
and sankeyPlaceChildren ::
  "nat node list \<Rightarrow> real list \<Rightarrow> real \<Rightarrow> real \<Rightarrow> real \<Rightarrow> layoutFields node list" where
  "sankeyPlace (Node i d p size' cs) x y height' =
     Node i d p
       \<lparr>n_size = size', n_x = x, n_y = y, n_width = columnWidth, n_height = height',
        n_cx = x + columnWidth / 2, n_cy = y + height' / 2\<rparr>
       (if cs = [] then []
        else
          (let avail = available (length cs) height';
               heights = childHeights (map props cs) size' avail;
               scale' = scale heights avail
           in sankeyPlaceChildren cs heights scale' x y))"
| "sankeyPlaceChildren [] heights scale' x cursor = []"
| "sankeyPlaceChildren (child # rest) [] scale' x cursor = []"
| "sankeyPlaceChildren (child # rest) (h # heights) scale' x cursor =
     (let childHeight = h * scale' in
      sankeyPlace child (x + columnWidth + columnGap) cursor childHeight #
      sankeyPlaceChildren rest heights scale' x (cursor + childHeight + nodeGap))"

text \<open>The links in the order of \<open>links.push\<close>: each child's link before the child's own.\<close>

fun linksOf :: "'a node \<Rightarrow> (int \<times> int \<times> nat) list" where
  "linksOf (Node i d p f cs) = concat (map (\<lambda>c. (i, nid c, d) # linksOf c) cs)"

definition sankeyCompute :: "'a node \<Rightarrow> layout" where
  "sankeyCompute root' =
     (let sized = computeSizes root';
          rootHeight = max (real (props sized) * unitHeight) minHeight;
          placed = sankeyPlace sized 0 0 rootHeight;
          maxDepth = maxDepthOf (subtrees placed)
      in \<lparr>r_nodes = subtrees placed, r_links = linksOf placed,
          r_bounds = \<lparr>b_width = (real maxDepth + 1) * (columnWidth + columnGap),
                      b_height = rootHeight\<rparr>,
          r_maxDepth = maxDepth\<rparr>)"


definition crowdedTree :: "unit node" where
  "crowdedTree = Node 1 0 None ()
     [Node 2 1 (Some 1) () [leaf 3 2 2],
      leaf 4 1 1, leaf 5 1 1, leaf 6 1 1, leaf 7 1 1, leaf 8 1 1, leaf 9 1 1]"

text \<open>A tree on which computeSizes has run: every size is 1 plus the children's sizes.\<close>

fun sizedTree :: "nat node \<Rightarrow> bool" where
  "sizedTree (Node i d p s cs) = (s = 1 + sum_list (map props cs) \<and> (\<forall>c \<in> set cs. sizedTree c))"




section \<open>Bounded-concurrency fetch (modules/data.js, fetchItemsByIds)\<close>

text \<open>
  What fetchItem does for an id: the promise is rejected (the request fails, the response
  is not ok or not JSON), or it resolves to \<open>null\<close> (the source has no such item), or it
  resolves to an item.
\<close>

datatype outcome = Failed | Empty | Item item

text \<open>
  The pool: the queue of ids, the tasks in flight, the items map and the counter. A task
  is the id it fetches and whether its \<open>then\<close>/\<open>catch\<close> handler has run; the task
  leaves the in-flight set when its \<open>finally\<close> handler runs, which is a later step.
  The progress callback is left out (it is optional, and reads \<open>fetched\<close> only).
\<close>

record pool =
  queue :: "int list"
  inflight :: "(int \<times> bool) list"
  items :: "int \<rightharpoonup> item"
  fetched :: nat

text \<open>
  pump has no await inside and runs to its end in one go: while the queue is not empty
  and fewer than \<open>concurrency\<close> tasks are in flight, it takes the first id, skips it if
  the items map has it, and starts its task otherwise.
\<close>

function pump :: "nat \<Rightarrow> pool \<Rightarrow> pool" where
  "pump concurrency p =
     (case queue p of
        [] \<Rightarrow> p
      | i # rest \<Rightarrow>
          if length (inflight p) < concurrency then
            (if items p i \<noteq> None then pump concurrency (p\<lparr>queue := rest\<rparr>)
             else pump concurrency (p\<lparr>queue := rest, inflight := inflight p @ [(i, False)]\<rparr>))
          else p)"
  by pat_completeness auto
termination
  by (relation "measure (\<lambda>(concurrency, p). length (queue p))") auto

declare pump.simps [simp del]

text \<open>
  The handlers of the task at position \<open>k\<close>. deliver: \<open>then\<close> stores an item under the
  id the item carries and counts it, and does nothing for \<open>null\<close>; \<open>catch\<close> takes a
  rejection (and logs it). retire: \<open>finally\<close> deletes the task from the in-flight set.
\<close>

definition deliver :: "(int \<Rightarrow> outcome) \<Rightarrow> nat \<Rightarrow> pool \<Rightarrow> pool" where
  "deliver fetchItem k p =
     (let p1 = (case fetchItem (fst (inflight p ! k)) of
                  Item item \<Rightarrow> p\<lparr>items := (items p)(i_id item \<mapsto> item), fetched := fetched p + 1\<rparr>
                | Empty \<Rightarrow> p
                | Failed \<Rightarrow> p)
      in p1\<lparr>inflight := (inflight p1)[k := (fst (inflight p1 ! k), True)]\<rparr>)"

definition retire :: "nat \<Rightarrow> pool \<Rightarrow> pool" where
  "retire k p = p\<lparr>inflight := take k (inflight p) @ drop (Suc k) (inflight p)\<rparr>"

text \<open>
  Handlers run in any order, each task's \<open>finally\<close> after its \<open>then\<close>/\<open>catch\<close>.
  \<open>events f p retired p'\<close>: some handlers run from \<open>p\<close> to \<open>p'\<close>, and \<open>retired\<close>
  tells whether a \<open>finally\<close> was among them.
\<close>

inductive events :: "(int \<Rightarrow> outcome) \<Rightarrow> pool \<Rightarrow> bool \<Rightarrow> pool \<Rightarrow> bool" where
  none: "events fetchItem p False p"
| delivered: "k < length (inflight p) \<Longrightarrow> \<not> snd (inflight p ! k) \<Longrightarrow>
     events fetchItem (deliver fetchItem k p) retired p' \<Longrightarrow> events fetchItem p retired p'"
| retired: "k < length (inflight p) \<Longrightarrow> snd (inflight p ! k) \<Longrightarrow>
     events fetchItem (retire k p) retired p' \<Longrightarrow> events fetchItem p True p'"

text \<open>
  The loop \<open>while (inflight.size) { await Promise.race(inflight); await pump(); }\<close>:
  the race is settled once a task has left the in-flight set; other handlers may have run
  by the time the loop goes on. The test of the loop is taken right after pump: a task
  that pump has just started has not settled by then (its fetch takes a round trip), and a
  handler of an older task that runs in between counts as a handler of the round that
  follows. \<open>mainLoop c f p r\<close>: from the pool \<open>p\<close> the function can return the
  items map \<open>r\<close>.
\<close>

inductive mainLoop :: "nat \<Rightarrow> (int \<Rightarrow> outcome) \<Rightarrow> pool \<Rightarrow> (int \<rightharpoonup> item) \<Rightarrow> bool" where
  finished: "inflight p = [] \<Longrightarrow> mainLoop concurrency fetchItem p (items p)"
| round: "inflight p \<noteq> [] \<Longrightarrow> events fetchItem p True p' \<Longrightarrow>
     mainLoop concurrency fetchItem (pump concurrency p') r \<Longrightarrow> mainLoop concurrency fetchItem p r"

definition fetchPool :: "nat \<Rightarrow> (int \<Rightarrow> outcome) \<Rightarrow> int list \<Rightarrow> (int \<rightharpoonup> item) \<Rightarrow> bool" where
  "fetchPool concurrency fetchItem ids' r =
     mainLoop concurrency fetchItem
       (pump concurrency \<lparr>queue = ids', inflight = [], items = Map.empty, fetched = 0\<rparr>) r"

text \<open>fetchItemsByIds fixes the concurrency at 12.\<close>

definition fetchItemsByIds :: "(int \<Rightarrow> outcome) \<Rightarrow> int list \<Rightarrow> (int \<rightharpoonup> item) \<Rightarrow> bool" where
  "fetchItemsByIds fetchItem ids' r = fetchPool 12 fetchItem ids' r"

text \<open>
  One round of the loop as a relation between pools, later pool first; the work left in a
  pool: two handlers for each id queued or task not yet delivered, one for a delivered task.
\<close>

definition poolRound :: "nat \<Rightarrow> (int \<Rightarrow> outcome) \<Rightarrow> (pool \<times> pool) set" where
  "poolRound concurrency fetchItem =
     {(p2, p). inflight p \<noteq> [] \<and> (\<exists>p1. events fetchItem p True p1 \<and> p2 = pump concurrency p1)}"

definition workLeft :: "pool \<Rightarrow> nat" where
  "workLeft p = 2 * length (queue p) + (\<Sum>t\<leftarrow>inflight p. if snd t then 1 else 2)"

text \<open>What the remote source answers in the scenario: the fetch of 1 fails, any other succeeds.\<close>

definition firstFails :: "int \<Rightarrow> outcome" where
  "firstFails i = (if i = 1 then Failed else Item (bareItem i []))"

text \<open>
  What holds of a pool that fetches the ids \<open>ids'\<close> at every moment: the items map
  holds only items fetched for ids of the list; every id of the list whose fetch gives an
  item is in the items map, or still queued, or in flight and not yet delivered; and only
  ids of the list are queued or in flight. \<open>honest\<close>: an item the source returns for an
  id of the list carries that id. \<open>expected\<close>: the items of the ids whose fetch gives one.
\<close>

definition poolInv :: "(int \<Rightarrow> outcome) \<Rightarrow> int list \<Rightarrow> pool \<Rightarrow> bool" where
  "poolInv fetchItem ids' p =
     ((\<forall>i item. items p i = Some item \<longrightarrow> i \<in> set ids' \<and> fetchItem i = Item item) \<and>
      (\<forall>i item. i \<in> set ids' \<longrightarrow> fetchItem i = Item item \<longrightarrow>
         items p i = Some item \<or> i \<in> set (queue p) \<or> (i, False) \<in> set (inflight p)) \<and>
      set (queue p) \<subseteq> set ids' \<and> fst ` set (inflight p) \<subseteq> set ids')"

definition honest :: "(int \<Rightarrow> outcome) \<Rightarrow> int list \<Rightarrow> bool" where
  "honest fetchItem ids' = (\<forall>i item. i \<in> set ids' \<longrightarrow> fetchItem i = Item item \<longrightarrow> i_id item = i)"

definition expected :: "(int \<Rightarrow> outcome) \<Rightarrow> int list \<Rightarrow> (int \<rightharpoonup> item)" where
  "expected fetchItem ids' =
     (\<lambda>i. if i \<in> set ids' then (case fetchItem i of Item item \<Rightarrow> Some item | _ \<Rightarrow> None) else None)"

section \<open>Properties of the derived metrics\<close>

lemma ids_Node: "ids (Node i d p f cs) = i # concat (map ids cs)"
  by (simp add: ids_def [abs_def] map_concat comp_def)

lemma nid_in_ids: "m \<in> set (subtrees t) \<Longrightarrow> nid m \<in> set (ids t)"
  by (simp add: ids_def)

lemma nid_in_ids_list:
  "m \<in> set (concat (map subtrees ts)) \<Longrightarrow> nid m \<in> set (concat (map ids ts))"
  by (auto simp: ids_def [abs_def])

lemma subtrees_self: "t \<in> set (subtrees t)"
  by (cases t) simp

lemma subtrees_child:
  "c \<in> set (children t) \<Longrightarrow> m \<in> set (subtrees c) \<Longrightarrow> m \<in> set (subtrees t)"
  by (cases t) auto

lemma subtrees_trans:
  "n \<in> set (subtrees t) \<Longrightarrow> m \<in> set (subtrees n) \<Longrightarrow> m \<in> set (subtrees t)"
proof (induction t arbitrary: n)
  case (Node i d p f cs)
  show ?case
  proof (cases "n = Node i d p f cs")
    case True
    with Node.prems show ?thesis by simp
  next
    case False
    with Node.prems obtain c where c: "c \<in> set cs" "n \<in> set (subtrees c)" by auto
    with Node.IH Node.prems have "m \<in> set (subtrees c)" by blast
    with c show ?thesis by auto
  qed
qed

lemma computeDescendants_value:
  "fst (computeDescendants (t :: 'a node) st) = strictDescendants t"
  "fst (descendantsLoop (ts :: 'a node list) k st) = k + (\<Sum>c\<leftarrow>ts. strictDescendants c + 1)"
proof (induction t st and ts k st rule: computeDescendants_descendantsLoop.induct)
  case (3 c cs total' st)
  obtain n st1 where c: "computeDescendants c st = (n, st1)" by (cases "computeDescendants c st")
  from "3.IH"(1) c have n: "n = strictDescendants c" by simp
  from "3.IH"(2) [OF refl c [symmetric]] c n show ?case by simp
qed (simp_all add: split_beta Let_def)

lemma computeDescendants_frame:
  "j \<notin> set (ids (t :: 'a node)) \<Longrightarrow>
     descCount (snd (computeDescendants t st)) j = descCount st j \<and>
     subtreeSize (snd (computeDescendants t st)) j = subtreeSize st j"
  "j \<notin> set (concat (map ids (ts :: 'a node list))) \<Longrightarrow>
     descCount (snd (descendantsLoop ts k st)) j = descCount st j \<and>
     subtreeSize (snd (descendantsLoop ts k st)) j = subtreeSize st j"
proof (induction t st and ts k st rule: computeDescendants_descendantsLoop.induct)
  case (1 i d p f cs st)
  from "1.prems" have "j \<noteq> i" "j \<notin> set (concat (map ids cs))"
    by (simp_all add: ids_Node)
  with "1.IH" show ?case by (simp add: split_beta Let_def)
next
  case (2 total' st)
  show ?case by simp
next
  case (3 c cs total' st)
  obtain n st1 where c: "computeDescendants c st = (n, st1)" by (cases "computeDescendants c st")
  from "3.prems" have j: "j \<notin> set (ids c)" "j \<notin> set (concat (map ids cs))" by simp_all
  from "3.IH"(2) [OF refl c [symmetric] j(2)] "3.IH"(1) [OF j(1)] c show ?case by simp
qed

lemma computeDescendants_maps:
  "distinct (ids (t :: 'a node)) \<Longrightarrow> m \<in> set (subtrees t) \<Longrightarrow>
     descCount (snd (computeDescendants t st)) (nid m) = Some (strictDescendants m) \<and>
     subtreeSize (snd (computeDescendants t st)) (nid m) = Some (strictDescendants m + 1)"
  "distinct (concat (map ids (ts :: 'a node list))) \<Longrightarrow> m \<in> set (concat (map subtrees ts)) \<Longrightarrow>
     descCount (snd (descendantsLoop ts k st)) (nid m) = Some (strictDescendants m) \<and>
     subtreeSize (snd (descendantsLoop ts k st)) (nid m) = Some (strictDescendants m + 1)"
proof (induction t st and ts k st rule: computeDescendants_descendantsLoop.induct)
  case (1 i d p f cs st)
  show ?case
  proof (cases "m = Node i d p f cs")
    case True
    then show ?thesis
      using computeDescendants_value(2) [of cs 0 st]
      by (simp add: split_beta Let_def)
  next
    case False
    with "1.prems" have m: "m \<in> set (concat (map subtrees cs))" by simp
    from "1.prems" have d: "distinct (concat (map ids cs))" and i: "i \<notin> set (concat (map ids cs))"
      by (simp_all add: ids_Node)
    from m have "nid m \<in> set (concat (map ids cs))"
      by (rule nid_in_ids_list)
    with i have "nid m \<noteq> i" by blast
    with "1.IH" [OF d m] show ?thesis
      by (simp add: split_beta Let_def)
  qed
next
  case (2 total' st)
  then show ?case by simp
next
  case (3 c cs total' st)
  obtain n st1 where c: "computeDescendants c st = (n, st1)" by (cases "computeDescendants c st")
  from "3.prems" have dc: "distinct (ids c)" and dcs: "distinct (concat (map ids cs))"
    and disj: "set (ids c) \<inter> set (concat (map ids cs)) = {}"
    by simp_all
  show ?case
  proof (cases "m \<in> set (concat (map subtrees cs))")
    case True
    from "3.IH"(2) [OF refl c [symmetric] dcs True] c show ?thesis by simp
  next
    case False
    with "3.prems" have m: "m \<in> set (subtrees c)" by simp
    then have "nid m \<in> set (ids c)" by (rule nid_in_ids)
    with disj have "nid m \<notin> set (concat (map ids cs))" by blast
    from computeDescendants_frame(2) [OF this, of "total' + (1 + n)" st1]
      "3.IH"(1) [OF dc m] c
    show ?thesis by simp
  qed
qed

lemma children_in_subtrees:
  "n \<in> set (subtrees t) \<Longrightarrow> c \<in> set (children n) \<Longrightarrow> c \<in> set (subtrees t)"
  using subtrees_trans [of n t c] subtrees_child [of c n c] subtrees_self [of c] by blast

lemma strictDescendants_children:
  "strictDescendants n = (\<Sum>c\<leftarrow>children n. strictDescendants c + 1)"
  by (cases n) simp

lemma scenario_build:
  "buildTree 2 1 scenarioState 0 None =
     Some (Some scenarioTree, scenarioState\<lparr>
       treeIndex := [2 \<mapsto> Node 2 1 (Some 1) () [], 3 \<mapsto> Node 3 1 (Some 1) () [], 1 \<mapsto> scenarioTree],
       depthMap := [1 \<mapsto> 0, 2 \<mapsto> 1, 3 \<mapsto> 1]\<rparr>)"
  by (simp add: buildTree.simps scenarioState_def scenarioTree_def emptyState_def bareItem_def itemKids_def numeral_2_eq_2 Let_def)

text \<open>
  C3. After computeDescendants has run on the root of a tree whose ids are unique (the
  invariant of the tree in the data model), every node n of the tree has
  descCount[n] = sum over its children c of (descCount[c] + 1) and
  subtreeSize[n] = descCount[n] + 1, and every leaf has descCount 0. For the item map
  {1:{kids:[2,3]}, 2:{kids:[]}, 3:{kids:[]}}, buildTree(1) gives a root with two children,
  and descCount is 2 at id 1 and 0 at ids 2 and 3.
\<close>

theorem computeDescendants_metrics:
  "(distinct (ids t) \<longrightarrow>
      (\<forall>n \<in> set (subtrees t).
         descCount (snd (computeDescendants t st)) (nid n) =
           Some (\<Sum>c\<leftarrow>children n. the (descCount (snd (computeDescendants t st)) (nid c)) + 1) \<and>
         subtreeSize (snd (computeDescendants t st)) (nid n) =
           Some (the (descCount (snd (computeDescendants t st)) (nid n)) + 1) \<and>
         (children n = [] \<longrightarrow> descCount (snd (computeDescendants t st)) (nid n) = Some 0))) \<and>
   (\<exists>root st1. buildTree 2 1 scenarioState 0 None = Some (Some root, st1) \<and>
      length (children root) = 2 \<and>
      descCount (snd (computeDescendants root st1)) 1 = Some 2 \<and>
      descCount (snd (computeDescendants root st1)) 2 = Some 0 \<and>
      descCount (snd (computeDescendants root st1)) 3 = Some 0)"
proof (intro conjI impI ballI)
  fix n assume d: "distinct (ids t)" and n: "n \<in> set (subtrees t)"
  let ?st = "snd (computeDescendants t st)"
  have kids: "\<And>c. c \<in> set (children n) \<Longrightarrow> the (descCount ?st (nid c)) = strictDescendants c"
    using computeDescendants_maps(1) [OF d children_in_subtrees [OF n]] by simp
  have "(\<Sum>c\<leftarrow>children n. the (descCount ?st (nid c)) + 1) = (\<Sum>c\<leftarrow>children n. strictDescendants c + 1)"
    by (rule arg_cong [where f = sum_list]) (simp add: kids)
  then show "descCount ?st (nid n) = Some (\<Sum>c\<leftarrow>children n. the (descCount ?st (nid c)) + 1)"
    using computeDescendants_maps(1) [OF d n, of st] strictDescendants_children [of n] by simp
  show "subtreeSize ?st (nid n) = Some (the (descCount ?st (nid n)) + 1)"
    using computeDescendants_maps(1) [OF d n, of st] by simp
  show "descCount ?st (nid n) = Some 0" if "children n = []"
    using computeDescendants_maps(1) [OF d n, of st] strictDescendants_children [of n] that by simp
next
  show "\<exists>root st1. buildTree 2 1 scenarioState 0 None = Some (Some root, st1) \<and>
      length (children root) = 2 \<and>
      descCount (snd (computeDescendants root st1)) 1 = Some 2 \<and>
      descCount (snd (computeDescendants root st1)) 2 = Some 0 \<and>
      descCount (snd (computeDescendants root st1)) 3 = Some 0"
    unfolding scenario_build by (simp add: scenarioTree_def)
qed

text \<open>
  The scenario tree has unique ids; the theorem gives the counts of its three nodes.
\<close>

theorem computeDescendants_metrics_witness:
  "distinct (ids scenarioTree) \<and>
   descCount (snd (computeDescendants scenarioTree emptyState)) 2 = Some 0 \<and>
   descCount (snd (computeDescendants scenarioTree emptyState)) 3 = Some 0 \<and>
   descCount (snd (computeDescendants scenarioTree emptyState)) 1 = Some 2 \<and>
   subtreeSize (snd (computeDescendants scenarioTree emptyState)) 1 = Some 3"
proof -
  let ?st = "snd (computeDescendants scenarioTree emptyState)"
  have d: "distinct (ids scenarioTree)"
    by (simp add: ids_def scenarioTree_def)
  note m = computeDescendants_metrics [of scenarioTree emptyState, THEN conjunct1, rule_format, OF d]
  have l2: "descCount ?st 2 = Some 0"
    using m [of "Node 2 1 (Some 1) () []"] by (simp add: scenarioTree_def)
  have l3: "descCount ?st 3 = Some 0"
    using m [of "Node 3 1 (Some 1) () []"] by (simp add: scenarioTree_def)
  have r: "descCount ?st 1 = Some 2" "subtreeSize ?st 1 = Some 3"
    using m [of scenarioTree] l2 l3 by (simp_all add: scenarioTree_def)
  from d l2 l3 r show ?thesis by simp
qed

section \<open>Properties of the tree builder\<close>

lemma buildTree_absent: "nodes st i = None \<Longrightarrow> buildTree fuel i st dep par = Some (None, st)"
  by (simp add: buildTree.simps)

lemma buildTree_null:
  "buildTree fuel i st dep par = Some (None, st') \<Longrightarrow> nodes st i = None \<and> st' = st"
  by (auto simp: buildTree.simps Let_def split: option.splits nat.splits)

lemma buildTree_present:
  "nodes st i = Some item \<Longrightarrow>
   buildTree (Suc fuel) i st dep par =
     (case buildKids fuel (itemKids item) (st\<lparr>depthMap := (depthMap st)(i \<mapsto> dep)\<rparr>) (dep + 1) i of
        None \<Rightarrow> None
      | Some (cs, st2) \<Rightarrow>
          Some (Some (Node i dep par () cs),
                st2\<lparr>treeIndex := (treeIndex st2)(i \<mapsto> Node i dep par () cs)\<rparr>))"
  by (simp add: buildTree.simps Let_def split: option.splits)

lemma builtFrom_Node:
  "builtFrom m (Node i d p f cs) =
     ((\<exists>it. m i = Some it \<and> map nid cs = filter (\<lambda>k. m k \<noteq> None) (itemKids it)) \<and>
      (\<forall>c \<in> set cs. builtFrom m c))"
  by (auto simp: builtFrom_def)

lemma buildTree_total:
  "ranked (nodes st) r \<Longrightarrow> nodes st i \<noteq> None \<Longrightarrow> r i < fuel \<Longrightarrow>
     \<exists>node st'. buildTree fuel i st dep par = Some (Some node, st') \<and>
       nodes st' = nodes st \<and> nid node = i \<and> builtFrom (nodes st) node"
  "ranked (nodes st) r \<Longrightarrow> (\<forall>k \<in> set ks. nodes st k \<noteq> None \<longrightarrow> r k < fuel) \<Longrightarrow>
     \<exists>cs st'. buildKids fuel ks st dep i = Some (cs, st') \<and>
       nodes st' = nodes st \<and> map nid cs = filter (\<lambda>k. nodes st k \<noteq> None) ks \<and>
       (\<forall>c \<in> set cs. builtFrom (nodes st) c)"
proof (induction fuel i st dep par and fuel ks st dep i rule: buildTree_buildKids.induct)
  case (1 fuel i st dep par)
  from "1.prems" obtain item where item: "nodes st i = Some item" by auto
  from "1.prems" obtain fuel' where fuel: "fuel = Suc fuel'" by (cases fuel) auto
  let ?st1 = "st\<lparr>depthMap := (depthMap st)(i \<mapsto> dep)\<rparr>"
  have r1: "ranked (nodes ?st1) r" using "1.prems" by simp
  have "\<forall>k \<in> set (itemKids item). nodes ?st1 k \<noteq> None \<longrightarrow> r k < fuel'"
  proof (intro ballI impI)
    fix k assume "k \<in> set (itemKids item)" "nodes ?st1 k \<noteq> None"
    with "1.prems"(1) item have "r k < r i" unfolding ranked_def by auto
    with "1.prems"(3) fuel show "r k < fuel'" by simp
  qed
  from "1.IH" [OF item fuel refl r1 this]
  obtain cs st2 where k: "buildKids fuel' (itemKids item) ?st1 (dep + 1) i = Some (cs, st2)"
    "nodes st2 = nodes st" "map nid cs = filter (\<lambda>k. nodes st k \<noteq> None) (itemKids item)"
    "\<forall>c \<in> set cs. builtFrom (nodes st) c"
    by auto
  then show ?case
    using item by (simp add: fuel buildTree_present builtFrom_Node)
next
  case (2 fuel st dep par)
  show ?case by simp
next
  case (3 fuel kid rest st dep par)
  show ?case
  proof (cases "nodes st kid")
    case None
    then have b: "buildTree fuel kid st dep (Some par) = Some (None, st)"
      by (rule buildTree_absent)
    from "3.IH"(2) [OF b refl] "3.prems" None b show ?thesis by auto
  next
    case (Some item)
    with "3.prems" have "r kid < fuel" by simp
    from "3.IH"(1) [OF "3.prems"(1) _ this] Some
    obtain node st1 where b: "buildTree fuel kid st dep (Some par) = Some (Some node, st1)"
      "nodes st1 = nodes st" "nid node = kid" "builtFrom (nodes st) node"
      by auto
    from "3.IH"(2) [OF b(1) refl] "3.prems" b(2)
    obtain cs st2 where k: "buildKids fuel rest st1 dep par = Some (cs, st2)"
      "nodes st2 = nodes st" "map nid cs = filter (\<lambda>k. nodes st k \<noteq> None) rest"
      "\<forall>c \<in> set cs. builtFrom (nodes st) c"
      by auto
    with b Some show ?thesis by simp
  qed
qed

text \<open>
  C6. buildTree returns null exactly when the id has no item in the item map, and then
  the state it returns is the state it was given (tree index and depth map included).
  When the item exists and the item map has no cycle, buildTree returns a node, and in
  the tree every node's children are, in order, the kids of its item that have an item:
  a kid with no item is left out, and nothing fails.
\<close>

theorem buildTree_soft_failure:
  "((\<exists>st'. buildTree fuel i st dep par = Some (None, st')) \<longleftrightarrow> nodes st i = None) \<and>
   (nodes st i = None \<longrightarrow> buildTree fuel i st dep par = Some (None, st)) \<and>
   (ranked (nodes st) r \<longrightarrow> nodes st i \<noteq> None \<longrightarrow> r i < fuel \<longrightarrow>
      (\<exists>node st'. buildTree fuel i st dep par = Some (Some node, st') \<and>
         nid node = i \<and> builtFrom (nodes st) node))"
proof (intro conjI impI)
  show "(\<exists>st'. buildTree fuel i st dep par = Some (None, st')) \<longleftrightarrow> nodes st i = None"
    using buildTree_absent [of st i fuel dep par] buildTree_null [of fuel i st dep par] by blast
  show "buildTree fuel i st dep par = Some (None, st)" if "nodes st i = None"
    using that by (rule buildTree_absent)
  show "\<exists>node st'. buildTree fuel i st dep par = Some (Some node, st') \<and>
         nid node = i \<and> builtFrom (nodes st) node"
    if "ranked (nodes st) r" "nodes st i \<noteq> None" "r i < fuel"
    using buildTree_total(1) [OF that, of dep par] by blast
qed

text \<open>
  An item map with a rank: the root names the kid 9, which has no item, between two kids
  that have one.
\<close>

theorem buildTree_soft_failure_witness:
  "ranked (nodes gapState) (\<lambda>i. if i = 1 then 1 else 0) \<and> nodes gapState 1 \<noteq> None \<and>
   (\<exists>node st'. buildTree 2 1 gapState 0 None = Some (Some node, st') \<and>
      nid node = 1 \<and> builtFrom (nodes gapState) node \<and> map nid (children node) = [2, 3]) \<and>
   nodes gapState 9 = None \<and>
   buildTree 2 9 gapState 0 None = Some (None, gapState)"
proof -
  let ?r = "\<lambda>i::int. if i = 1 then 1 else (0::nat)"
  have r: "ranked (nodes gapState) ?r"
    by (auto simp: ranked_def gapState_def emptyState_def bareItem_def itemKids_def split: if_splits)
  have p: "nodes gapState 1 \<noteq> None" and a: "nodes gapState 9 = None"
    by (simp_all add: gapState_def emptyState_def)
  have f: "?r 1 < 2" by simp
  from buildTree_soft_failure [of 2 1 gapState 0 None ?r] r p f
  obtain node st' where n: "buildTree 2 1 gapState 0 None = Some (Some node, st')"
    "nid node = 1" "builtFrom (nodes gapState) node"
    by blast
  have g: "nodes gapState 1 = Some (bareItem 1 [2, 9, 3])" "nodes gapState 2 \<noteq> None"
    "nodes gapState 3 \<noteq> None"
    by (simp_all add: gapState_def emptyState_def)
  from n(3) subtrees_self [of node]
  obtain it where "nodes gapState (nid node) = Some it"
    "map nid (children node) = filter (\<lambda>k. nodes gapState k \<noteq> None) (itemKids it)"
    unfolding builtFrom_def by blast
  with n(2) g a have "map nid (children node) = [2, 3]"
    by (auto simp: bareItem_def itemKids_def)
  then have e: "\<exists>node st'. buildTree 2 1 gapState 0 None = Some (Some node, st') \<and>
      nid node = 1 \<and> builtFrom (nodes gapState) node \<and> map nid (children node) = [2, 3]"
    using n by (intro exI [of _ node] exI [of _ st'] conjI)
  have z: "buildTree 2 9 gapState 0 None = Some (None, gapState)"
    using buildTree_soft_failure [of 2 9 gapState 0 None ?r] a by simp
  from r p e a z show ?thesis by (intro conjI)
qed

section \<open>Properties of the cache diff\<close>

lemma join_nonempty: "join sep (x # y # ys) \<noteq> [] \<longleftrightarrow> x \<noteq> [] \<or> sep \<noteq> [] \<or> join sep (y # ys) \<noteq> []"
  by simp

lemma fingerprint_nonempty: "fingerprint item \<noteq> []"
  by (simp add: fingerprint_def)

lemma find_app:
  "find P (xs @ ys) = (case find P xs of None \<Rightarrow> find P ys | Some x \<Rightarrow> Some x)"
  by (induction xs) simp_all

lemma oldMapLoop_lookup:
  "oldMapLoop olds m k =
     (case find (\<lambda>item. i_id item = k) (rev olds) of
        None \<Rightarrow> m k
      | Some item \<Rightarrow> Some (fingerprint item))"
  by (induction olds arbitrary: m) (auto simp: find_app split: option.splits)

lemma oldMap_lookup:
  "oldMapLoop olds Map.empty k = map_option fingerprint (oldItemOf olds k)"
  by (simp add: oldMapLoop_lookup oldItemOf_def split: option.splits)

lemma oldItemOf_None: "oldItemOf olds k = None \<longleftrightarrow> k \<notin> i_id ` set olds"
  by (auto simp: oldItemOf_def find_None_iff)

lemma oldItemOf_distinct:
  "distinct (map i_id olds) \<Longrightarrow> a \<in> set olds \<Longrightarrow> oldItemOf olds (i_id a) = Some a"
proof (induction olds)
  case Nil
  then show ?case by simp
next
  case (Cons x xs)
  show ?case
  proof (cases "a = x")
    case True
    with Cons.prems have "i_id a \<notin> i_id ` set xs" by auto
    then have "oldItemOf xs (i_id a) = None"
      by (simp add: oldItemOf_None)
    then have "find (\<lambda>item. i_id item = i_id a) (rev xs) = None"
      by (simp add: oldItemOf_def)
    with True show ?thesis by (simp add: oldItemOf_def find_app)
  next
    case False
    with Cons have "oldItemOf xs (i_id a) = Some a" by simp
    then show ?thesis by (simp add: oldItemOf_def find_app)
  qed
qed

lemma diffLoop_counts:
  "diffLoop (oldMapLoop olds Map.empty) news d =
     \<lparr>added = added d + length (filter (\<lambda>n. i_id n \<notin> i_id ` set olds) news),
      updated = updated d + length (filter (\<lambda>n. case oldItemOf olds (i_id n) of
          None \<Rightarrow> False | Some old \<Rightarrow> fingerprint old \<noteq> fingerprint n) news)\<rparr>"
proof (induction news arbitrary: d)
  case Nil
  show ?case by simp
next
  case (Cons n news)
  show ?case
  proof (cases "oldItemOf olds (i_id n)")
    case None
    then show ?thesis
      using oldItemOf_None [of olds "i_id n"] oldMap_lookup [of olds "i_id n"]
      by (simp add: Cons.IH Let_def)
  next
    case (Some old)
    then have "i_id n \<in> i_id ` set olds"
      using oldItemOf_None [of olds "i_id n"] by auto
    with Some oldMap_lookup [of olds "i_id n"] show ?thesis
      by (simp add: Cons.IH Let_def fingerprint_nonempty)
  qed
qed

lemma find_Some_in: "find P xs = Some x \<Longrightarrow> x \<in> set xs \<and> P x"
  by (induction xs) (auto split: if_splits)

lemma oldItemOf_Some: "oldItemOf olds k = Some old \<Longrightarrow> old \<in> set olds \<and> i_id old = k"
  using find_Some_in [of "\<lambda>item. i_id item = k" "rev olds" old] by (simp add: oldItemOf_def)

lemma updated_distinct:
  assumes "distinct (map i_id olds)"
  shows "(case oldItemOf olds (i_id n) of None \<Rightarrow> False | Some old \<Rightarrow> fingerprint old \<noteq> fingerprint n) =
     (\<exists>old \<in> set olds. i_id old = i_id n \<and> fingerprint old \<noteq> fingerprint n)"
proof (cases "oldItemOf olds (i_id n)")
  case None
  then have "i_id n \<notin> i_id ` set olds" by (simp add: oldItemOf_None)
  then have "\<not> (\<exists>old \<in> set olds. i_id old = i_id n \<and> fingerprint old \<noteq> fingerprint n)"
    by (metis imageI)
  with None show ?thesis by simp
next
  case (Some old)
  have "old' = old" if "old' \<in> set olds" "i_id old' = i_id n" for old'
    using oldItemOf_distinct [OF assms that(1)] that(2) Some by simp
  with Some oldItemOf_Some [OF Some] show ?thesis by auto
qed

lemma diffThreads_eq:
  "diffThreads oldItems newItems =
     \<lparr>added = length (filter (\<lambda>n. i_id n \<notin> i_id ` set (orEmptyList oldItems)) (orEmptyList newItems)),
      updated = length (filter (\<lambda>n. case oldItemOf (orEmptyList oldItems) (i_id n) of
          None \<Rightarrow> False | Some old \<Rightarrow> fingerprint old \<noteq> fingerprint n) (orEmptyList newItems))\<rparr>"
  by (simp add: diffThreads_def diffLoop_counts)

text \<open>
  C8. diffThreads counts an item of newItems as added exactly when its id does not occur
  in oldItems, and as updated exactly when its id occurs there and its fingerprint differs
  from the fingerprint of the old item of that id (the last one, should oldItems repeat
  an id; when the ids of oldItems are unique, the one old item of that id). The diff of
  old = [{id:1, score:5}] against new = [{id:1, score:9}, {id:2, score:1}] is
  {added: 1, updated: 1}.
\<close>

theorem diffThreads_counts:
  "added (diffThreads oldItems newItems) =
     length (filter (\<lambda>n. i_id n \<notin> i_id ` set (orEmptyList oldItems)) (orEmptyList newItems)) \<and>
   updated (diffThreads oldItems newItems) =
     length (filter (\<lambda>n. case oldItemOf (orEmptyList oldItems) (i_id n) of
         None \<Rightarrow> False | Some old \<Rightarrow> fingerprint old \<noteq> fingerprint n) (orEmptyList newItems)) \<and>
   (distinct (map i_id (orEmptyList oldItems)) \<longrightarrow>
      updated (diffThreads oldItems newItems) =
        length (filter (\<lambda>n. \<exists>old \<in> set (orEmptyList oldItems).
            i_id old = i_id n \<and> fingerprint old \<noteq> fingerprint n) (orEmptyList newItems))) \<and>
   diffThreads (Some [scoreItem 1 5]) (Some [scoreItem 1 9, scoreItem 2 1]) = \<lparr>added = 1, updated = 1\<rparr>"
proof (intro conjI impI)
  show "added (diffThreads oldItems newItems) =
     length (filter (\<lambda>n. i_id n \<notin> i_id ` set (orEmptyList oldItems)) (orEmptyList newItems))"
    by (simp add: diffThreads_eq)
  show "updated (diffThreads oldItems newItems) =
     length (filter (\<lambda>n. case oldItemOf (orEmptyList oldItems) (i_id n) of
         None \<Rightarrow> False | Some old \<Rightarrow> fingerprint old \<noteq> fingerprint n) (orEmptyList newItems))"
    by (simp add: diffThreads_eq)
  show "updated (diffThreads oldItems newItems) =
        length (filter (\<lambda>n. \<exists>old \<in> set (orEmptyList oldItems).
            i_id old = i_id n \<and> fingerprint old \<noteq> fingerprint n) (orEmptyList newItems))"
    if "distinct (map i_id (orEmptyList oldItems))"
    by (simp add: diffThreads_eq updated_distinct [OF that])
  show "diffThreads (Some [scoreItem 1 5]) (Some [scoreItem 1 9, scoreItem 2 1]) = \<lparr>added = 1, updated = 1\<rparr>"
    by (simp add: diffThreads_def orEmptyList_def scoreItem_def fingerprint_def orEmpty_def
        numOrEmpty_def flag_def kidsLength_def showInt_def showNat.simps)
qed

text \<open>
  The old list of the scenario has unique ids.
\<close>

theorem diffThreads_counts_witness:
  "distinct (map i_id (orEmptyList (Some [scoreItem 1 5]))) \<and>
   updated (diffThreads (Some [scoreItem 1 5]) (Some [scoreItem 1 9, scoreItem 2 1])) =
     length (filter (\<lambda>n. \<exists>old \<in> set (orEmptyList (Some [scoreItem 1 5])).
         i_id old = i_id n \<and> fingerprint old \<noteq> fingerprint n)
       (orEmptyList (Some [scoreItem 1 9, scoreItem 2 1]))) \<and>
   updated (diffThreads (Some [scoreItem 1 5]) (Some [scoreItem 1 9, scoreItem 2 1])) = 1"
proof -
  have d: "distinct (map i_id (orEmptyList (Some [scoreItem 1 5])))"
    by (simp add: orEmptyList_def)
  note t = diffThreads_counts [of "Some [scoreItem 1 5]" "Some [scoreItem 1 9, scoreItem 2 1]"]
  from t d have u: "updated (diffThreads (Some [scoreItem 1 5]) (Some [scoreItem 1 9, scoreItem 2 1])) =
     length (filter (\<lambda>n. \<exists>old \<in> set (orEmptyList (Some [scoreItem 1 5])).
         i_id old = i_id n \<and> fingerprint old \<noteq> fingerprint n)
       (orEmptyList (Some [scoreItem 1 9, scoreItem 2 1])))"
    by (elim conjE impE) assumption+
  from t have v: "updated (diffThreads (Some [scoreItem 1 5]) (Some [scoreItem 1 9, scoreItem 2 1])) = 1"
    by simp
  from d u v show ?thesis by (intro conjI)
qed

text \<open>
  C10. The fingerprint takes only the length of an item's kids. Two versions of an item
  that differ only in which ids their kids hold, the count being the same, have the same
  fingerprint; and when the one is in oldItems (whose ids are unique), the other in
  newItems is counted neither as added nor as updated: the diff is the diff without it.
\<close>

theorem fingerprint_kids_length_only:
  "length ks1 = length ks2 \<longrightarrow>
     fingerprint (a\<lparr>i_kids := Some ks1\<rparr>) = fingerprint (a\<lparr>i_kids := Some ks2\<rparr>) \<and>
     (distinct (map i_id olds) \<longrightarrow> a\<lparr>i_kids := Some ks1\<rparr> \<in> set olds \<longrightarrow>
        diffThreads (Some olds) (Some (pre @ a\<lparr>i_kids := Some ks2\<rparr> # post)) =
        diffThreads (Some olds) (Some (pre @ post)))"
proof (intro impI conjI)
  assume l: "length ks1 = length ks2"
  then show f: "fingerprint (a\<lparr>i_kids := Some ks1\<rparr>) = fingerprint (a\<lparr>i_kids := Some ks2\<rparr>)"
    by (simp add: fingerprint_def kidsLength_def)
  assume d: "distinct (map i_id olds)" and m: "a\<lparr>i_kids := Some ks1\<rparr> \<in> set olds"
  from oldItemOf_distinct [OF d m]
  have o: "oldItemOf olds (i_id a) = Some (a\<lparr>i_kids := Some ks1\<rparr>)" by simp
  from imageI [OF m, of i_id] have i: "i_id a \<in> i_id ` set olds" by simp
  show "diffThreads (Some olds) (Some (pre @ a\<lparr>i_kids := Some ks2\<rparr> # post)) =
        diffThreads (Some olds) (Some (pre @ post))"
    using o i f by (simp add: diffThreads_eq orEmptyList_def)
qed

text \<open>
  Item 1 with the kids [2, 3] in the old list and with the kids [7, 2] in the new one.
\<close>

theorem fingerprint_kids_length_only_witness:
  "length [2, 3 :: int] = length [7, 2 :: int] \<and>
   fingerprint ((bareItem 1 [])\<lparr>i_kids := Some [2, 3]\<rparr>) =
     fingerprint ((bareItem 1 [])\<lparr>i_kids := Some [7, 2]\<rparr>) \<and>
   distinct (map i_id [(bareItem 1 [])\<lparr>i_kids := Some [2, 3]\<rparr>]) \<and>
   diffThreads (Some [(bareItem 1 [])\<lparr>i_kids := Some [2, 3]\<rparr>])
     (Some ([] @ (bareItem 1 [])\<lparr>i_kids := Some [7, 2]\<rparr> # [])) =
   diffThreads (Some [(bareItem 1 [])\<lparr>i_kids := Some [2, 3]\<rparr>]) (Some ([] @ [])) \<and>
   diffThreads (Some [bareItem 1 [2, 3]]) (Some [bareItem 1 [7, 2]]) = \<lparr>added = 0, updated = 0\<rparr>"
proof -
  have e: "diffThreads (Some [bareItem 1 [2, 3]]) (Some []) = \<lparr>added = 0, updated = 0\<rparr>"
    by (simp add: diffThreads_def orEmptyList_def)
  from fingerprint_kids_length_only
    [of "[2, 3]" "[7, 2]" "bareItem 1 []" "[(bareItem 1 [])\<lparr>i_kids := Some [2, 3]\<rparr>]" "[]" "[]"] e
  show ?thesis by (simp add: bareItem_def)
qed

section \<open>Properties of the nested-bands layout\<close>

lemma sizesLoop_eq:
  "sizesLoop cs k = (k + sum_list (map (\<lambda>c. props (computeSizes c)) cs), map computeSizes cs)"
  by (induction cs arbitrary: k) (simp_all add: Let_def)

lemma computeSizes_Node:
  "computeSizes (Node i d p f cs) =
     Node i d p (1 + sum_list (map (\<lambda>c. props (computeSizes c)) cs)) (map computeSizes cs)"
  by (simp add: sizesLoop_eq)

lemma sizedTree_computeSizes: "sizedTree (computeSizes t)"
  by (induction t) (simp add: computeSizes_Node comp_def del: computeSizes.simps)

lemma sizedTree_pos: "sizedTree t \<Longrightarrow> 0 < props t"
  by (cases t) simp

lemma iciclePlace_props:
  "n_width (props (iciclePlace t x y w)) = w"
  "n_size (props (iciclePlace t x y w)) = props t"
  by (cases t; simp add: Let_def)+

lemma iciclePlace_children:
  "children (iciclePlace t x y w) =
     iciclePlaceChildren (children t) x (y + depthHeight) w (props t)"
  by (cases t) (simp add: Let_def)

lemma iciclePlaceChildren_widths:
  "map (\<lambda>c. n_width (props c)) (iciclePlaceChildren cs cur y w s) =
     map (\<lambda>c. w * real (props c) / real s) cs"
  by (induction cs arbitrary: cur) (simp_all add: Let_def iciclePlace_props)

lemma iciclePlaceChildren_sizes:
  "map (\<lambda>c. n_size (props c)) (iciclePlaceChildren cs cur y w s) = map props cs"
  by (induction cs arbitrary: cur) (simp_all add: Let_def iciclePlace_props)

lemma iciclePlaceChildren_Nil: "iciclePlaceChildren cs cur y w s = [] \<longleftrightarrow> cs = []"
  by (cases cs) (simp_all add: Let_def)

lemma sum_list_scaled: "(\<Sum>c\<leftarrow>cs. w * real (f c) / real s) = w * real (sum_list (map f cs)) / real s"
  by (induction cs) (simp_all add: algebra_simps add_divide_distrib)

lemma iciclePlace_node:
  assumes "sizedTree t" and "w = unitWidth * real (props t)"
  shows "n_width (props (iciclePlace t x y w)) = unitWidth * real (n_size (props (iciclePlace t x y w)))"
    and "children (iciclePlace t x y w) \<noteq> [] \<Longrightarrow>
      (\<Sum>c\<leftarrow>children (iciclePlace t x y w). n_width (props c)) =
        n_width (props (iciclePlace t x y w)) - unitWidth"
    and "list_all (\<lambda>c. n_width (props c) =
        n_width (props (iciclePlace t x y w)) * real (n_size (props c)) /
          real (n_size (props (iciclePlace t x y w)))) (children (iciclePlace t x y w))"
proof -
  obtain i d p s cs where t: "t = Node i d p s cs" by (cases t)
  from assms t have s: "s = 1 + sum_list (map props cs)" by simp
  show "n_width (props (iciclePlace t x y w)) = unitWidth * real (n_size (props (iciclePlace t x y w)))"
    using assms by (simp add: iciclePlace_props)
  have "(\<Sum>c\<leftarrow>children (iciclePlace t x y w). n_width (props c)) =
      sum_list (map (\<lambda>c. n_width (props c)) (iciclePlaceChildren cs x (y + depthHeight) w s))"
    by (simp add: t Let_def)
  also have "\<dots> = w * real (sum_list (map props cs)) / real s"
    by (simp add: iciclePlaceChildren_widths sum_list_scaled)
  also have "\<dots> = w - unitWidth"
    using assms(2) s by (simp add: t field_simps)
  finally show "(\<Sum>c\<leftarrow>children (iciclePlace t x y w). n_width (props c)) =
        n_width (props (iciclePlace t x y w)) - unitWidth"
    by (simp add: iciclePlace_props)
  have "list_all (\<lambda>c. n_width (props c) = w * real (n_size (props c)) / real s)
      (iciclePlaceChildren cs' cur y' w s)" for cs' cur y'
    by (induction cs' arbitrary: cur) (simp_all add: Let_def iciclePlace_props)
  then show "list_all (\<lambda>c. n_width (props c) =
        n_width (props (iciclePlace t x y w)) * real (n_size (props c)) /
          real (n_size (props (iciclePlace t x y w)))) (children (iciclePlace t x y w))"
    by (simp add: t Let_def)
qed


lemma icicle_subtrees:
  "sizedTree t \<Longrightarrow> w = unitWidth * real (props t) \<Longrightarrow>
     m \<in> set (subtrees (iciclePlace t x y w)) \<Longrightarrow>
     \<exists>n x' y'. sizedTree n \<and> m = iciclePlace n x' y' (unitWidth * real (props n))"
  "\<forall>c \<in> set cs. sizedTree c \<Longrightarrow> w = unitWidth * real s \<Longrightarrow> 0 < s \<Longrightarrow>
     m \<in> set (concat (map subtrees (iciclePlaceChildren cs cur y w s))) \<Longrightarrow>
     \<exists>n x' y'. sizedTree n \<and> m = iciclePlace n x' y' (unitWidth * real (props n))"
proof (induction t x y w and cs cur y w s rule: iciclePlace_iciclePlaceChildren.induct)
  case (1 i d p s cs x y w)
  show ?case
  proof (cases "m = iciclePlace (Node i d p s cs) x y w")
    case True
    with "1.prems" show ?thesis by blast
  next
    case False
    with "1.prems"(3)
    have m: "m \<in> set (concat (map subtrees (iciclePlaceChildren cs x (y + depthHeight) w s)))"
      by (simp add: Let_def)
    from "1.prems" have "\<forall>c \<in> set cs. sizedTree c" "w = unitWidth * real s" "0 < s"
      by simp_all
    from "1.IH" [OF refl this m] show ?thesis .
  qed
next
  case (2 cursor y w s)
  then show ?case by simp
next
  case (3 child rest cursor y w s)
  let ?cw = "w * real (props child) / real s"
  from "3.prems" have cw: "?cw = unitWidth * real (props child)" by simp
  from "3.prems"(4) consider
    (a) "m \<in> set (subtrees (iciclePlace child cursor y ?cw))"
  | (b) "m \<in> set (concat (map subtrees (iciclePlaceChildren rest (cursor + ?cw) y w s)))"
    by (auto simp: Let_def)
  then show ?case
  proof cases
    case a
    from "3.prems" have "sizedTree child" by simp
    from "3.IH"(1) [OF refl this cw a] show ?thesis .
  next
    case b
    from "3.prems" have "\<forall>c \<in> set rest. sizedTree c" by simp
    from "3.IH"(2) [OF refl this "3.prems"(2,3) b] show ?thesis .
  qed
qed

lemma icicle_scenario:
  "r_nodes (icicleCompute scenarioTree) =
    [Node 1 0 None \<lparr>n_size = 3, n_x = 0, n_y = 0, n_width = 36, n_height = 110, n_cx = 18, n_cy = 55\<rparr>
      [Node 2 1 (Some 1) \<lparr>n_size = 1, n_x = 0, n_y = 110, n_width = 12, n_height = 110, n_cx = 6, n_cy = 165\<rparr> [],
       Node 3 1 (Some 1) \<lparr>n_size = 1, n_x = 12, n_y = 110, n_width = 12, n_height = 110, n_cx = 18, n_cy = 165\<rparr> []],
     Node 2 1 (Some 1) \<lparr>n_size = 1, n_x = 0, n_y = 110, n_width = 12, n_height = 110, n_cx = 6, n_cy = 165\<rparr> [],
     Node 3 1 (Some 1) \<lparr>n_size = 1, n_x = 12, n_y = 110, n_width = 12, n_height = 110, n_cx = 18, n_cy = 165\<rparr> []]"
  by (simp add: icicleCompute_def scenarioTree_def Let_def unitWidth_def depthHeight_def)

text \<open>
  C1 (as the code has it). In the result of the icicle compute every node is as wide as
  unitWidth times its size (which is positive), and a child's width is the parent's width times the child's
  size over the parent's size. The parent's size counts the parent itself, so the widths of
  the children of a non-leaf node add up to the node's width less unitWidth: they do not
  fill the parent's band.
\<close>

theorem icicle_children_widths:
  "\<forall>n \<in> set (r_nodes (icicleCompute t)).
     0 < n_size (props n) \<and>
     n_width (props n) = unitWidth * real (n_size (props n)) \<and>
     (\<forall>c \<in> set (children n).
        n_width (props c) = n_width (props n) * real (n_size (props c)) / real (n_size (props n))) \<and>
     (children n \<noteq> [] \<longrightarrow>
        (\<Sum>c\<leftarrow>children n. n_width (props c)) = n_width (props n) - unitWidth)"
proof
  fix m assume "m \<in> set (r_nodes (icicleCompute t))"
  then have m: "m \<in> set (subtrees (iciclePlace (computeSizes t) 0 0
      (unitWidth * real (props (computeSizes t)))))"
    by (simp add: icicleCompute_def Let_def mult.commute)
  from icicle_subtrees(1) [OF sizedTree_computeSizes refl m]
  obtain n x' y' where n: "sizedTree n" "m = iciclePlace n x' y' (unitWidth * real (props n))"
    by blast
  from iciclePlace_node [OF n(1) refl, of x' y'] n(2) sizedTree_pos [OF n(1)]
  show "0 < n_size (props m) \<and> n_width (props m) = unitWidth * real (n_size (props m)) \<and>
     (\<forall>c \<in> set (children m).
        n_width (props c) = n_width (props m) * real (n_size (props c)) / real (n_size (props m))) \<and>
     (children m \<noteq> [] \<longrightarrow>
        (\<Sum>c\<leftarrow>children m. n_width (props c)) = n_width (props m) - unitWidth)"
    by (simp add: list_all_iff iciclePlace_props)
qed

text \<open>
  The root of the scenario tree: 36 wide, its two children 24 together.
\<close>

theorem icicle_children_widths_witness:
  "hd (r_nodes (icicleCompute scenarioTree)) \<in> set (r_nodes (icicleCompute scenarioTree)) \<and>
   children (hd (r_nodes (icicleCompute scenarioTree))) \<noteq> [] \<and>
   (\<Sum>c\<leftarrow>children (hd (r_nodes (icicleCompute scenarioTree))). n_width (props c)) =
     n_width (props (hd (r_nodes (icicleCompute scenarioTree)))) - unitWidth \<and>
   n_width (props (hd (r_nodes (icicleCompute scenarioTree)))) = 36 \<and>
   n_width (props (hd (r_nodes (icicleCompute scenarioTree)))) - unitWidth = 24"
proof -
  let ?n = "hd (r_nodes (icicleCompute scenarioTree))"
  have a: "?n \<in> set (r_nodes (icicleCompute scenarioTree))" "children ?n \<noteq> []"
    "n_width (props ?n) = 36"
    by (simp_all add: icicle_scenario)
  from icicle_children_widths [of scenarioTree, rule_format, OF a(1)] a(2)
  have "(\<Sum>c\<leftarrow>children ?n. n_width (props c)) = n_width (props ?n) - unitWidth"
    by blast
  with a show ?thesis by (simp add: unitWidth_def)
qed

text \<open>
  The children do not fill the parent: a root with two leaf children is 36 wide, and the
  widths of its children add up to 24, a whole unitWidth less.
\<close>

theorem icicle_children_fill_counterexample:
  "\<exists>n \<in> set (r_nodes (icicleCompute scenarioTree)).
     children n \<noteq> [] \<and> n_width (props n) = 36 \<and>
     (\<Sum>c\<leftarrow>children n. n_width (props c)) = 24"
  by (simp add: icicle_scenario)

section \<open>Properties of the weighted-flow-columns layout\<close>




















section \<open>Properties of the visibility filter\<close>

lemma unchangedBelow_refl: "unchangedBelow n X h h"
  by (simp add: unchangedBelow_def)

lemma unchangedBelow_trans:
  "unchangedBelow n X h h1 \<Longrightarrow> unchangedBelow n' X h1 h2 \<Longrightarrow> n \<le> n' \<Longrightarrow>
     unchangedBelow n X h h2"
  by (auto simp: unchangedBelow_def)

lemma unchangedBelow_weaken:
  "unchangedBelow n X h h' \<Longrightarrow> n' \<le> n \<Longrightarrow> X \<subseteq> Y \<Longrightarrow> unchangedBelow n' Y h h'"
  unfolding unchangedBelow_def by (meson order_less_le_trans subsetD)

lemma allocArray_frame:
  "allocArray h = (arr, h1) \<Longrightarrow>
     arr = nextRef h \<and> nextRef h1 = nextRef h + 1 \<and> arrays h1 arr = Some [] \<and>
     objects h1 = objects h \<and> unchangedBelow (nextRef h) {} h h1"
  by (auto simp: allocArray_def unchangedBelow_def)

lemma allocObject_frame:
  "allocObject obj h = (v, h1) \<Longrightarrow>
     v = nextRef h \<and> nextRef h1 = nextRef h + 1 \<and> objects h1 v = Some obj \<and>
     arrays h1 = arrays h \<and> unchangedBelow (nextRef h) {} h h1"
  by (auto simp: allocObject_def unchangedBelow_def)

lemma push_frame:
  "push arr v h = Some h1 \<Longrightarrow>
     nextRef h1 = nextRef h \<and> objects h1 = objects h \<and>
     (\<exists>vs. arrays h arr = Some vs \<and> arrays h1 = (arrays h)(arr \<mapsto> vs @ [v])) \<and>
     unchangedBelow n {arr} h h1"
  by (auto simp: push_def unchangedBelow_def split: option.splits)

lemma heapOK_alloc:
  "heapOK h \<Longrightarrow> allocArray h = (arr, h1) \<Longrightarrow> heapOK h1"
  "heapOK h \<Longrightarrow> allocObject obj h = (v, h2) \<Longrightarrow> heapOK h2"
  by (auto simp: heapOK_def allocArray_def allocObject_def)

lemma heapOK_push: "heapOK h \<Longrightarrow> arr < nextRef h \<Longrightarrow> push arr v h = Some h1 \<Longrightarrow> heapOK h1"
  by (auto simp: heapOK_def push_def split: option.splits)

lemma buildVisibleTreeH_frame:
  "buildVisibleTreeH fuel node st h = Some (v, h') \<Longrightarrow>
     nextRef h \<le> nextRef h' \<and> unchangedBelow (nextRef h) {} h h' \<and> (heapOK h \<longrightarrow> heapOK h')"
  "visibleLoopH fuel kids arr st h = Some h' \<Longrightarrow>
     nextRef h \<le> nextRef h' \<and> unchangedBelow (nextRef h) {arr} h h' \<and>
     (heapOK h \<longrightarrow> arr < nextRef h \<longrightarrow> heapOK h')"
proof (induction fuel node st h and fuel kids arr st h arbitrary: v h' and h'
    rule: buildVisibleTreeH_visibleLoopH.induct)
  case (1 node st h)
  then show ?case by simp
next
  case (2 fuel node st h)
  from "2.prems" obtain obj where obj: "objects h node = Some obj"
    by (auto split: option.splits)
  obtain arr h1 where a: "allocArray h = (arr, h1)" by (cases "allocArray h")
  obtain visible h2 where o: "allocObject (obj\<lparr>o_children := arr\<rparr>) h1 = (visible, h2)"
    by (cases "allocObject (obj\<lparr>o_children := arr\<rparr>) h1")
  note fa = allocArray_frame [OF a] and fo = allocObject_frame [OF o]
  have n2: "nextRef h2 = nextRef h + 2" using fa fo by simp
  have u2: "unchangedBelow (nextRef h) {} h h2"
    using fa fo by (auto simp: unchangedBelow_def)
  have ok2: "heapOK h \<longrightarrow> heapOK h2"
    using heapOK_alloc(1) [OF _ a] heapOK_alloc(2) [OF _ o] by blast
  show ?case
  proof (cases "o_id obj \<in> collapsed st")
    case True
    with "2.prems" obj a o have "h' = h2" by simp
    with n2 u2 ok2 show ?thesis by simp
  next
    case False
    with "2.prems" obj a o obtain kids where
      kids: "arrays h2 (o_children obj) = Some kids" and
      loop: "visibleLoopH fuel kids arr st h2 = Some h'"
      by (auto split: option.splits)
    from "2.IH" [OF obj a [symmetric] refl o [symmetric] refl False kids loop]
    have l: "nextRef h2 \<le> nextRef h'" "unchangedBelow (nextRef h2) {arr} h2 h'"
      "heapOK h2 \<longrightarrow> arr < nextRef h2 \<longrightarrow> heapOK h'"
      by simp_all
    have "unchangedBelow (nextRef h) {} h h'"
      using u2 l(2) n2 fa by (auto simp: unchangedBelow_def)
    with l n2 ok2 fa show ?thesis by simp
  qed
next
  case (3 fuel arr st h)
  then show ?case by (simp add: unchangedBelow_refl)
next
  case (4 fuel child rest arr st h)
  from "4.prems" obtain v h1 h2 where
    b: "buildVisibleTreeH fuel child st h = Some (v, h1)" and
    p: "push arr v h1 = Some h2" and
    l: "visibleLoopH fuel rest arr st h2 = Some h'"
    by (auto split: option.splits)
  from "4.IH"(1) [OF b]
  have i1: "nextRef h \<le> nextRef h1" "unchangedBelow (nextRef h) {} h h1" "heapOK h \<longrightarrow> heapOK h1"
    by simp_all
  note fp = push_frame [OF p, of "nextRef h1"]
  from "4.IH"(2) [OF b refl p l]
  have i2: "nextRef h2 \<le> nextRef h'" "unchangedBelow (nextRef h2) {arr} h2 h'"
    "heapOK h2 \<longrightarrow> arr < nextRef h2 \<longrightarrow> heapOK h'"
    by simp_all
  have "unchangedBelow (nextRef h) {arr} h h'"
    using i1 fp i2 by (auto simp: unchangedBelow_def)
  moreover have "heapOK h \<longrightarrow> arr < nextRef h \<longrightarrow> heapOK h'"
    using i1 i2 fp heapOK_push [OF _ _ p] by auto
  ultimately show ?case using i1 i2 fp by simp
qed

lemma reprIn_mono:
  "reprIn lo hi h r t \<Longrightarrow> lo' \<le> lo \<Longrightarrow> hi \<le> hi' \<Longrightarrow> reprIn lo' hi' h r t"
proof (induction t arbitrary: r)
  case (Node i d p f cs)
  from Node.prems(1) obtain obj rs where
    o: "objects h r = Some obj" "arrays h (o_children obj) = Some rs"
      "list_all2 (\<lambda>r' c. reprIn lo hi h r' c) rs cs"
    by (auto split: option.splits)
  have "list_all2 (\<lambda>r' c. reprIn lo' hi' h r' c) rs cs"
    using o(3) Node.IH Node.prems(2,3)
    by (auto simp: list_all2_conv_all_nth intro!: Node.IH)
  with Node.prems o show ?case by (auto split: option.splits)
qed

lemma reprIn_frame:
  "reprIn lo hi h r t \<Longrightarrow>
     (\<And>a. lo \<le> a \<Longrightarrow> a < hi \<Longrightarrow> objects h' a = objects h a \<and> arrays h' a = arrays h a) \<Longrightarrow>
     reprIn lo hi h' r t"
proof (induction t arbitrary: r)
  case (Node i d p f cs)
  from Node.prems(1) obtain obj rs where
    o: "objects h r = Some obj" "arrays h (o_children obj) = Some rs"
      "list_all2 (\<lambda>r' c. reprIn lo hi h r' c) rs cs"
      "lo \<le> r" "r < hi" "lo \<le> o_children obj" "o_children obj < hi"
    by (auto split: option.splits)
  have "list_all2 (\<lambda>r' c. reprIn lo hi h' r' c) rs cs"
    using o(3) Node.prems(2)
    by (auto simp: list_all2_conv_all_nth intro!: Node.IH)
  moreover have "objects h' r = Some obj" "arrays h' (o_children obj) = Some rs"
    using Node.prems(2) o by simp_all
  ultimately show ?case using Node.prems(1) o by (auto split: option.splits)
qed

lemma size_child: "c \<in> set cs \<Longrightarrow> size c < size (Node i d p f cs)"
  by (simp add: less_Suc_eq_le size_list_estimation')

lemma reprIn_list_frame:
  "list_all2 (\<lambda>r' c. reprIn lo hi h r' c) rs cs \<Longrightarrow>
     (\<And>a. lo \<le> a \<Longrightarrow> a < hi \<Longrightarrow> objects h' a = objects h a \<and> arrays h' a = arrays h a) \<Longrightarrow>
     lo' \<le> lo \<Longrightarrow> hi \<le> hi' \<Longrightarrow>
     list_all2 (\<lambda>r' c. reprIn lo' hi' h' r' c) rs cs"
proof -
  assume l: "list_all2 (\<lambda>r' c. reprIn lo hi h r' c) rs cs"
    and f: "\<And>a. lo \<le> a \<Longrightarrow> a < hi \<Longrightarrow> objects h' a = objects h a \<and> arrays h' a = arrays h a"
    and b: "lo' \<le> lo" "hi \<le> hi'"
  have "reprIn lo' hi' h' r' c" if "reprIn lo hi h r' c" for r' c
    by (rule reprIn_mono [OF reprIn_frame [OF that f] b])
  with l show ?thesis by (rule list_all2_mono)
qed

lemma buildVisibleTreeH_result:
  "reprIn 0 n h r t \<Longrightarrow> n \<le> nextRef h \<Longrightarrow> size t < fuel \<Longrightarrow>
     \<exists>v h'. buildVisibleTreeH fuel r st h = Some (v, h') \<and>
       reprIn (nextRef h) (nextRef h') h' v (buildVisibleTree t st)"
proof (induction t arbitrary: fuel r h)
  case (Node i d p f cs)
  from Node.prems(3) obtain fuel' where fuel: "fuel = Suc fuel'" by (cases fuel) auto
  from Node.prems(1) obtain obj rs where
    o: "objects h r = Some obj" "arrays h (o_children obj) = Some rs"
      "list_all2 (\<lambda>r' c. reprIn 0 n h r' c) rs cs" "r < n" "o_children obj < n"
      "o_id obj = i" "o_depth obj = d" "o_parentId obj = p" "o_props obj = f"
    by (auto split: option.splits)
  obtain arr h1 where a: "allocArray h = (arr, h1)" by (cases "allocArray h")
  obtain visible h2 where v: "allocObject (obj\<lparr>o_children := arr\<rparr>) h1 = (visible, h2)"
    by (cases "allocObject (obj\<lparr>o_children := arr\<rparr>) h1")
  note fa = allocArray_frame [OF a] and fo = allocObject_frame [OF v]
  have arr: "arr = nextRef h" and vis: "visible = nextRef h + 1" and n2: "nextRef h2 = nextRef h + 2"
    using fa fo by simp_all
  have u2: "unchangedBelow (nextRef h) {} h h2"
    using fa fo by (auto simp: unchangedBelow_def)
  have ov: "objects h2 visible = Some (obj\<lparr>o_children := arr\<rparr>)" and av: "arrays h2 arr = Some []"
    using fa fo by auto
  show ?case
  proof (cases "i \<in> collapsed st")
    case True
    then have "buildVisibleTreeH fuel r st h = Some (visible, h2)"
      using o a v by (simp add: fuel)
    moreover have "reprIn (nextRef h) (nextRef h2) h2 visible (buildVisibleTree (Node i d p f cs) st)"
      using True ov av o arr vis n2 by simp
    ultimately show ?thesis by blast
  next
    case False
    have kids: "arrays h2 (o_children obj) = Some rs"
      using u2 o Node.prems(2) by (simp add: unchangedBelow_def)
    have src: "list_all2 (\<lambda>r' c. reprIn 0 n h2 r' c) rs cs"
    proof (rule reprIn_list_frame [OF o(3)])
      fix a assume "a < n"
      with u2 Node.prems(2) show "objects h2 a = objects h a \<and> arrays h2 a = arrays h a"
        by (simp add: unchangedBelow_def)
    qed simp_all
    have loop: "\<exists>h'. visibleLoopH fuel' rs' arr st h0 = Some h' \<and> nextRef h0 \<le> nextRef h' \<and>
        (\<exists>vs'. arrays h' arr = Some vs' \<and>
           list_all2 (\<lambda>r' c. reprIn (nextRef h + 2) (nextRef h') h' r' c) vs'
             (done @ map (\<lambda>c. buildVisibleTree c st) cs')) \<and>
        objects h' visible = objects h0 visible"
      if "list_all2 (\<lambda>r' c. reprIn 0 n h0 r' c) rs' cs'" "set cs' \<subseteq> set cs"
        "nextRef h + 2 \<le> nextRef h0" "arrays h0 arr = Some vs"
        "list_all2 (\<lambda>r' c. reprIn (nextRef h + 2) (nextRef h0) h0 r' c) vs done"
      for rs' cs' vs "done" h0
    proof -
      from that(1) have "length rs' = length cs'" by (rule list_all2_lengthD)
      then show ?thesis using that
    proof (induction rs' cs' arbitrary: vs "done" h0 rule: list_induct2)
      case Nil
      then show ?case by auto
    next
      case (Cons r0 rs' c0 cs')
      from Cons.prems have c0: "c0 \<in> set cs" by simp
      from Cons.prems(1) have hyp1: "reprIn 0 n h0 r0 c0"
        and hyp2: "list_all2 (\<lambda>r' c. reprIn 0 n h0 r' c) rs' cs'" by simp_all
      with Node.prems(3) have sz: "size c0 < fuel'"
        using size_child [OF c0, of i d p f] by (simp add: fuel)
      from Node.prems(2) Cons.prems have nn: "n \<le> nextRef h0" by simp
      from Node.IH [OF c0 hyp1 nn sz]
      obtain v1 h1' where b: "buildVisibleTreeH fuel' r0 st h0 = Some (v1, h1')"
        and rv: "reprIn (nextRef h0) (nextRef h1') h1' v1 (buildVisibleTree c0 st)"
        by blast
      from buildVisibleTreeH_frame(1) [OF b]
      have f1: "nextRef h0 \<le> nextRef h1'" "unchangedBelow (nextRef h0) {} h0 h1'" by simp_all
      from Cons.prems arr have arr0: "arr < nextRef h0" by simp
      with f1 Cons.prems have a1: "arrays h1' arr = Some vs" by (simp add: unchangedBelow_def)
      define h2' where "h2' = h1'\<lparr>arrays := (arrays h1')(arr \<mapsto> vs @ [v1])\<rparr>"
      have p: "push arr v1 h1' = Some h2'" by (simp add: push_def a1 h2'_def)
      have same2: "\<And>a. a \<noteq> arr \<Longrightarrow> arrays h2' a = arrays h1' a" "objects h2' = objects h1'"
        "nextRef h2' = nextRef h1'" "arrays h2' arr = Some (vs @ [v1])"
        by (simp_all add: h2'_def)
      have g1: "list_all2 (\<lambda>r' c. reprIn 0 n h2' r' c) rs' cs'"
      proof (rule reprIn_list_frame [OF hyp2])
        fix a assume "a < n"
        with Node.prems(2) arr nn have "a < nextRef h0" "a \<noteq> arr" by simp_all
        with f1 same2 show "objects h2' a = objects h0 a \<and> arrays h2' a = arrays h0 a"
          by (simp add: unchangedBelow_def)
      qed simp_all
      have g2: "set cs' \<subseteq> set cs" using Cons.prems by simp
      have g3: "nextRef h + 2 \<le> nextRef h2'" using Cons.prems f1 same2 by simp
      have g5a: "list_all2 (\<lambda>r' c. reprIn (nextRef h + 2) (nextRef h2') h2' r' c) vs done"
      proof (rule reprIn_list_frame [OF Cons.prems(5)])
        fix a assume "nextRef h + 2 \<le> a" "a < nextRef h0"
        with arr have "a \<noteq> arr" by simp
        with \<open>a < nextRef h0\<close> f1 same2
        show "objects h2' a = objects h0 a \<and> arrays h2' a = arrays h0 a"
          by (simp add: unchangedBelow_def)
      qed (use same2 f1 in simp_all)
      have "reprIn (nextRef h0) (nextRef h1') h2' v1 (buildVisibleTree c0 st)"
      proof (rule reprIn_frame [OF rv])
        fix a assume "nextRef h0 \<le> a"
        with arr0 have "a \<noteq> arr" by simp
        with same2 show "objects h2' a = objects h1' a \<and> arrays h2' a = arrays h1' a" by simp
      qed
      then have g5b: "reprIn (nextRef h + 2) (nextRef h2') h2' v1 (buildVisibleTree c0 st)"
        by (rule reprIn_mono) (use Cons.prems(3) same2 in simp_all)
      from g5a g5b have g5: "list_all2 (\<lambda>r' c. reprIn (nextRef h + 2) (nextRef h2') h2' r' c)
          (vs @ [v1]) (done @ [buildVisibleTree c0 st])"
        by (simp add: list_all2_appendI)
      from Cons.IH [OF g1 g2 g3 same2(4) g5]
      obtain h' vs' where r: "visibleLoopH fuel' rs' arr st h2' = Some h'" "nextRef h2' \<le> nextRef h'"
        "arrays h' arr = Some vs'"
        "list_all2 (\<lambda>r' c. reprIn (nextRef h + 2) (nextRef h') h' r' c) vs'
           ((done @ [buildVisibleTree c0 st]) @ map (\<lambda>c. buildVisibleTree c st) cs')"
        "objects h' visible = objects h2' visible"
        by blast
      have "visibleLoopH fuel' (r0 # rs') arr st h0 = Some h'"
        using b p r(1) by simp
      moreover have "objects h' visible = objects h0 visible"
        using r(5) same2 f1 Cons.prems(3) vis by (simp add: unchangedBelow_def)
      moreover have "nextRef h0 \<le> nextRef h'" using r(2) same2 f1 by simp
      ultimately show ?case using r(3,4) by auto
    qed
    qed
    from loop [OF src subset_refl _ av, of "[]"] n2
    obtain h3 vs' where l: "visibleLoopH fuel' rs arr st h2 = Some h3" "nextRef h2 \<le> nextRef h3"
      "arrays h3 arr = Some vs'"
      "list_all2 (\<lambda>r' c. reprIn (nextRef h + 2) (nextRef h3) h3 r' c) vs'
         (map (\<lambda>c. buildVisibleTree c st) cs)"
      "objects h3 visible = objects h2 visible"
      by auto
    have "buildVisibleTreeH fuel r st h = Some (visible, h3)"
      using False o a v kids l(1) by (simp add: fuel)
    moreover have "list_all2 (\<lambda>r' c. reprIn (nextRef h) (nextRef h3) h3 r' c) vs'
         (map (\<lambda>c. buildVisibleTree c st) cs)"
      by (rule reprIn_list_frame [OF l(4)]) simp_all
    then have "reprIn (nextRef h) (nextRef h3) h3 visible (buildVisibleTree (Node i d p f cs) st)"
      using False l ov o arr vis n2 by simp
    ultimately show ?thesis by blast
  qed
qed

lemma buildVisibleTree_collapsed:
  "n \<in> set (subtrees (buildVisibleTree t st)) \<Longrightarrow> nid n \<in> collapsed st \<Longrightarrow> children n = []"
  by (induction t) (auto split: if_splits)

text \<open>
  C4. buildVisibleTree, run on a store that holds the tree, returns a copy and changes no
  node object and no array that was there before the call: the store still holds the same
  tree at the same reference. The collapsed set is part of the state, which the function
  only reads. The copy is the tree that buildVisibleTree gives on values, and in it every
  node whose id is in the collapsed set has no children, however many it has in the
  input tree.
\<close>

theorem buildVisibleTree_frame:
  "heapOK h \<longrightarrow> repr h r t \<longrightarrow> size t < fuel \<longrightarrow>
     (\<exists>v h'. buildVisibleTreeH fuel r st h = Some (v, h') \<and>
        (\<forall>a. objects h a \<noteq> None \<longrightarrow> objects h' a = objects h a) \<and>
        (\<forall>a. arrays h a \<noteq> None \<longrightarrow> arrays h' a = arrays h a) \<and>
        repr h' r t \<and>
        repr h' v (buildVisibleTree t st)) \<and>
     (\<forall>n \<in> set (subtrees (buildVisibleTree t st)). nid n \<in> collapsed st \<longrightarrow> children n = [])"
proof (intro impI conjI)
  assume ok: "heapOK h" and rp: "repr h r t" and sz: "size t < fuel"
  from rp have r0: "reprIn 0 (nextRef h) h r t" by (simp add: repr_def)
  from buildVisibleTreeH_result [OF r0 order_refl sz, of st]
  obtain v h' where b: "buildVisibleTreeH fuel r st h = Some (v, h')"
    and rv: "reprIn (nextRef h) (nextRef h') h' v (buildVisibleTree t st)"
    by blast
  from buildVisibleTreeH_frame(1) [OF b]
  have f: "nextRef h \<le> nextRef h'" "unchangedBelow (nextRef h) {} h h'" by simp_all
  have below: "a < nextRef h" if "objects h a \<noteq> None \<or> arrays h a \<noteq> None" for a
    using ok that unfolding heapOK_def by (meson not_le)
  have fo: "\<forall>a. objects h a \<noteq> None \<longrightarrow> objects h' a = objects h a"
    using below f(2) by (simp add: unchangedBelow_def)
  have fa: "\<forall>a. arrays h a \<noteq> None \<longrightarrow> arrays h' a = arrays h a"
    using below f(2) by (simp add: unchangedBelow_def)
  have "reprIn 0 (nextRef h) h' r t"
  proof (rule reprIn_frame [OF r0])
    fix a assume "a < nextRef h"
    with f(2) show "objects h' a = objects h a \<and> arrays h' a = arrays h a"
      by (simp add: unchangedBelow_def)
  qed
  then have r1: "repr h' r t"
    unfolding repr_def by (rule reprIn_mono [OF _ order_refl f(1)])
  from rv have r2: "repr h' v (buildVisibleTree t st)"
    unfolding repr_def by (rule reprIn_mono) simp_all
  from b fo fa r1 r2
  show "\<exists>v h'. buildVisibleTreeH fuel r st h = Some (v, h') \<and>
        (\<forall>a. objects h a \<noteq> None \<longrightarrow> objects h' a = objects h a) \<and>
        (\<forall>a. arrays h a \<noteq> None \<longrightarrow> arrays h' a = arrays h a) \<and>
        repr h' r t \<and>
        repr h' v (buildVisibleTree t st)"
    by blast
next
  show "\<forall>n \<in> set (subtrees (buildVisibleTree t st)). nid n \<in> collapsed st \<longrightarrow> children n = []"
    using buildVisibleTree_collapsed by blast
qed

text \<open>
  The scenario tree in a store, with the root collapsed: the copy has no children, and the
  root object and its children array are as before.
\<close>

theorem buildVisibleTree_frame_witness:
  "heapOK scenarioHeap \<and> repr scenarioHeap 0 scenarioTree \<and> size scenarioTree < 10 \<and>
   (\<exists>v h'. buildVisibleTreeH 10 0 (emptyState\<lparr>collapsed := {1}\<rparr>) scenarioHeap = Some (v, h') \<and>
      objects h' 0 = objects scenarioHeap 0 \<and> arrays h' 3 = Some [1, 2] \<and>
      repr h' 0 scenarioTree \<and> repr h' v (Node 1 0 None () [])) \<and>
   length (children scenarioTree) = 2 \<and>
   buildVisibleTree scenarioTree (emptyState\<lparr>collapsed := {1}\<rparr>) = Node 1 0 None () []"
proof -
  let ?st = "emptyState\<lparr>collapsed := {1}\<rparr>"
  have ok: "heapOK scenarioHeap"
    by (auto simp: heapOK_def scenarioHeap_def)
  have rp: "repr scenarioHeap 0 scenarioTree"
    by (simp add: repr_def scenarioHeap_def scenarioTree_def)
  have sz: "size scenarioTree < 10"
    by (simp add: scenarioTree_def)
  have bv: "buildVisibleTree scenarioTree ?st = Node 1 0 None () []"
    by (simp add: scenarioTree_def)
  have o: "objects scenarioHeap 0 \<noteq> None" "arrays scenarioHeap 3 = Some [1, 2]"
    by (simp_all add: scenarioHeap_def)
  from buildVisibleTree_frame [of scenarioHeap 0 scenarioTree 10 ?st] ok rp sz
  obtain v h' where b: "buildVisibleTreeH 10 0 ?st scenarioHeap = Some (v, h')"
    "\<forall>a. objects scenarioHeap a \<noteq> None \<longrightarrow> objects h' a = objects scenarioHeap a"
    "\<forall>a. arrays scenarioHeap a \<noteq> None \<longrightarrow> arrays h' a = arrays scenarioHeap a"
    "repr h' 0 scenarioTree" "repr h' v (buildVisibleTree scenarioTree ?st)"
    by blast
  from b(2) o(1) have o0: "objects h' 0 = objects scenarioHeap 0" by blast
  from b(3) o(2) have a3: "arrays h' 3 = Some [1, 2]" by simp
  from b(1,4,5) o0 a3 have "\<exists>v h'. buildVisibleTreeH 10 0 ?st scenarioHeap = Some (v, h') \<and>
      objects h' 0 = objects scenarioHeap 0 \<and> arrays h' 3 = Some [1, 2] \<and>
      repr h' 0 scenarioTree \<and> repr h' v (Node 1 0 None () [])"
    unfolding bv by blast
  with ok rp sz bv show ?thesis by (simp add: scenarioTree_def)
qed

section \<open>The round trip through the visible tree\<close>

lemma buildVisibleTree_nothing_collapsed: "collapsed st = {} \<Longrightarrow> buildVisibleTree t st = t"
  by (induction t) (simp add: map_idI)

lemma computeDescendants_collapsed:
  "collapsed (snd (computeDescendants (t :: 'a node) st)) = collapsed st"
  "collapsed (snd (descendantsLoop (ts :: 'a node list) k st)) = collapsed st"
proof (induction t st and ts k st rule: computeDescendants_descendantsLoop.induct)
  case (1 i d p f cs st)
  then show ?case by (simp add: split_beta Let_def)
next
  case (2 total' st)
  show ?case by simp
next
  case (3 c cs total' st)
  obtain n st1 where c: "computeDescendants c st = (n, st1)" by (cases "computeDescendants c st")
  from "3.IH"(2) [OF refl c [symmetric]] "3.IH"(1) c show ?case by simp
qed

lemma buildTree_collapsed:
  "buildTree fuel i st dep par = Some (res, st') \<Longrightarrow> collapsed st' = collapsed st"
  "buildKids fuel ks st dep i = Some (cs, st') \<Longrightarrow> collapsed st' = collapsed st"
proof (induction fuel i st dep par and fuel ks st dep i arbitrary: res st' and cs st'
    rule: buildTree_buildKids.induct)
  case (1 fuel i st dep par)
  show ?case
  proof (cases "nodes st i")
    case None
    with "1.prems" show ?thesis by (simp add: buildTree.simps)
  next
    case (Some item)
    with "1.prems" obtain fuel' where fuel: "fuel = Suc fuel'"
      by (cases fuel) (auto simp: buildTree.simps)
    let ?st1 = "st\<lparr>depthMap := (depthMap st)(i \<mapsto> dep)\<rparr>"
    from "1.prems" Some fuel obtain cs st2 where
      k: "buildKids fuel' (itemKids item) ?st1 (dep + 1) i = Some (cs, st2)"
      and s: "st' = st2\<lparr>treeIndex := (treeIndex st2)(i \<mapsto> Node i dep par () cs)\<rparr>"
      by (auto simp: buildTree_present split: option.splits)
    from "1.IH" [OF Some fuel refl k] s show ?thesis by simp
  qed
next
  case (2 fuel st dep par)
  then show ?case by simp
next
  case (3 fuel kid rest st dep par)
  from "3.prems" obtain child st1 cs' where
    b: "buildTree fuel kid st dep (Some par) = Some (child, st1)" and
    k: "buildKids fuel rest st1 dep par = Some (cs', st')"
    by (auto split: option.splits)
  from "3.IH"(1) [OF b] "3.IH"(2) [OF b refl k] show ?case by simp
qed

text \<open>
  C9. For an item map with no cycle and a present root, and an empty collapsed set:
  building the tree, computing the metrics and taking the visible tree gives back the full
  tree itself, so every layout, being a function of the tree it is given, computes the
  same result (the same nodes, geometry and bounds) on the visible tree as on the full
  tree; in particular the icicle and the sankey compute do.
\<close>

theorem visible_roundtrip:
  "ranked (nodes st) r \<longrightarrow> nodes st rootId \<noteq> None \<longrightarrow> r rootId < fuel \<longrightarrow> collapsed st = {} \<longrightarrow>
     (\<exists>tree st1. buildTree fuel rootId st 0 None = Some (Some tree, st1) \<and>
        buildVisibleTree tree (snd (computeDescendants tree st1)) = tree \<and>
        icicleCompute (buildVisibleTree tree (snd (computeDescendants tree st1))) = icicleCompute tree \<and>
        sankeyCompute (buildVisibleTree tree (snd (computeDescendants tree st1))) = sankeyCompute tree \<and>
        (\<forall>compute :: unit node \<Rightarrow> layout.
           compute (buildVisibleTree tree (snd (computeDescendants tree st1))) = compute tree))"
proof (intro impI)
  assume a: "ranked (nodes st) r" "nodes st rootId \<noteq> None" "r rootId < fuel" and c: "collapsed st = {}"
  from buildTree_total(1) [OF a, of 0 None]
  obtain tree st1 where b: "buildTree fuel rootId st 0 None = Some (Some tree, st1)" by blast
  from buildTree_collapsed(1) [OF b] c
  have "collapsed (snd (computeDescendants tree st1)) = {}"
    by (simp add: computeDescendants_collapsed)
  then have "buildVisibleTree tree (snd (computeDescendants tree st1)) = tree"
    by (rule buildVisibleTree_nothing_collapsed)
  with b show "\<exists>tree st1. buildTree fuel rootId st 0 None = Some (Some tree, st1) \<and>
        buildVisibleTree tree (snd (computeDescendants tree st1)) = tree \<and>
        icicleCompute (buildVisibleTree tree (snd (computeDescendants tree st1))) = icicleCompute tree \<and>
        sankeyCompute (buildVisibleTree tree (snd (computeDescendants tree st1))) = sankeyCompute tree \<and>
        (\<forall>compute :: unit node \<Rightarrow> layout.
           compute (buildVisibleTree tree (snd (computeDescendants tree st1))) = compute tree)"
    by simp
qed

text \<open>
  The item map of the scenario, with nothing collapsed.
\<close>

theorem visible_roundtrip_witness:
  "ranked (nodes scenarioState) (\<lambda>i. if i = 1 then 1 else 0) \<and> nodes scenarioState 1 \<noteq> None \<and>
   collapsed scenarioState = {} \<and>
   (\<exists>tree st1. buildTree 2 1 scenarioState 0 None = Some (Some tree, st1) \<and> tree = scenarioTree \<and>
      icicleCompute (buildVisibleTree tree (snd (computeDescendants tree st1))) = icicleCompute tree \<and>
      sankeyCompute (buildVisibleTree tree (snd (computeDescendants tree st1))) = sankeyCompute tree)"
proof -
  let ?r = "\<lambda>i::int. if i = 1 then 1 else (0::nat)"
  have r: "ranked (nodes scenarioState) ?r"
    by (auto simp: ranked_def scenarioState_def emptyState_def bareItem_def itemKids_def split: if_splits)
  have p: "nodes scenarioState 1 \<noteq> None" and c: "collapsed scenarioState = {}"
    by (simp_all add: scenarioState_def emptyState_def)
  have f: "?r 1 < 2" by simp
  from visible_roundtrip [of scenarioState ?r 1 2] r p f c
  obtain tree st1 where t: "buildTree 2 1 scenarioState 0 None = Some (Some tree, st1)"
    "icicleCompute (buildVisibleTree tree (snd (computeDescendants tree st1))) = icicleCompute tree"
    "sankeyCompute (buildVisibleTree tree (snd (computeDescendants tree st1))) = sankeyCompute tree"
    by blast
  from t(1) have "tree = scenarioTree" by (simp add: scenario_build)
  with t have "\<exists>tree st1. buildTree 2 1 scenarioState 0 None = Some (Some tree, st1) \<and> tree = scenarioTree \<and>
      icicleCompute (buildVisibleTree tree (snd (computeDescendants tree st1))) = icicleCompute tree \<and>
      sankeyCompute (buildVisibleTree tree (snd (computeDescendants tree st1))) = sankeyCompute tree"
    by (intro exI [of _ tree] exI [of _ st1] conjI)
  with r p c show ?thesis by (intro conjI)
qed

section \<open>Properties of the focus\<close>

lemma parentsOK_parentId: "parentsOK par t \<Longrightarrow> parentId t = par"
  by (cases t) simp

lemma indexOf_lookup:
  assumes "distinct (ids T)" and "t \<in> set (subtrees T)"
  shows "indexOf T (nid t) = Some t"
proof -
  have "distinct (map fst (map (\<lambda>n. (nid n, n)) (subtrees T)))"
    using assms(1) by (simp add: ids_def comp_def)
  moreover have "(nid t, t) \<in> set (map (\<lambda>n. (nid n, n)) (subtrees T))"
    using assms(2) by auto
  ultimately show ?thesis unfolding indexOf_def by (rule map_of_is_SomeI)
qed

lemma indexOf_absent: "i \<notin> set (ids T) \<Longrightarrow> indexOf T i = None"
  by (simp add: indexOf_def ids_def map_of_eq_None_iff image_image)

lemma walk_ids:
  "walk (n :: 'a node) acc = acc \<union> set (strictDescendantIds n)"
  "walkChildren (cs :: 'a node list) acc = acc \<union> set (concat (map ids cs))"
proof (induction n acc and cs acc rule: walk_walkChildren.induct)
  case (1 i d p f cs desc)
  then show ?case by (simp add: strictDescendantIds_def)
next
  case (2 desc)
  show ?case by simp
next
  case (3 child rest desc)
  have "ids child = nid child # strictDescendantIds child"
    by (cases child) (simp add: ids_Node strictDescendantIds_def)
  with 3 show ?case by auto
qed

lemma climb:
  fixes T :: "unit node"
  assumes d: "distinct (ids T)"
  shows "t \<in> set (subtrees T) \<Longrightarrow> parentsOK par t \<Longrightarrow>
     (\<And>acc. ancestorsLoop (indexOf T) t acc = Some (acc \<union> set as)) \<Longrightarrow>
     (n, as') \<in> set (withAncestors as t) \<Longrightarrow>
     ancestorsLoop (indexOf T) n acc = Some (acc \<union> set as')"
proof (induction t arbitrary: par as acc)
  case (Node i d' p f cs)
  show ?case
  proof (cases "(n, as') = (Node i d' p f cs, as)")
    case True
    with Node.prems(3) show ?thesis by simp
  next
    case False
    with Node.prems(4) obtain c where c: "c \<in> set cs" "(n, as') \<in> set (withAncestors (i # as) c)"
      by auto
    from c(1) Node.prems(1) have cT: "c \<in> set (subtrees T)"
      using children_in_subtrees [of "Node i d' p f cs" T c] by simp
    from c(1) Node.prems(2) have pc: "parentsOK (Some i) c" by simp
    have idx: "indexOf T i = Some (Node i d' p f cs)"
      using indexOf_lookup [OF d Node.prems(1)] by simp
    have up: "ancestorsLoop (indexOf T) c acc' = Some (acc' \<union> set (i # as))" for acc'
      using parentsOK_parentId [OF pc] idx Node.prems(3) [of "insert i acc'"]
      by (subst ancestorsLoop.simps) simp
    from Node.IH [OF c(1) cT pc up c(2)] show ?thesis .
  qed
qed

lemma withAncestors_subtree:
  "(n, as') \<in> set (withAncestors as t) \<Longrightarrow> n \<in> set (subtrees t)"
  by (induction t arbitrary: as) auto

lemma withAncestors_shape:
  "(n, as') \<in> set (withAncestors as t) \<Longrightarrow>
     (n = t \<and> as' = as) \<or> (size n < size t \<and> (\<exists>pre. as' = pre @ nid t # as))"
proof (induction t arbitrary: as)
  case (Node i d p f cs)
  show ?case
  proof (cases "(n, as') = (Node i d p f cs, as)")
    case True
    then show ?thesis by simp
  next
    case False
    with Node.prems obtain c where c: "c \<in> set cs" "(n, as') \<in> set (withAncestors (i # as) c)"
      by auto
    from Node.IH [OF c] have "size n \<le> size c \<and> (\<exists>pre. as' = pre @ i # as)"
      by auto
    with size_child [OF c(1), of i d p f] show ?thesis by auto
  qed
qed

lemma root_in_ancestors:
  "(n, as) \<in> set (withAncestors [] t) \<Longrightarrow> nid t \<in> set as \<longleftrightarrow> n \<noteq> t"
  using withAncestors_shape [of n as "[]" t] by auto

lemma computeFocus_absent:
  "treeIndex st i = None \<Longrightarrow> computeFocus st (Some i) = Some (st\<lparr>focus := clearedFocus\<rparr>)"
  by (simp add: computeFocus_def Let_def)

lemma computeFocus_present:
  fixes T :: "unit node"
  assumes "distinct (ids T)" "parentsOK None T" "treeIndex st = indexOf T"
    "(n, as) \<in> set (withAncestors [] T)" "nid n \<noteq> 0"
  shows "computeFocus st (Some (nid n)) =
     Some (st\<lparr>focus := \<lparr>ancestors = set as, descendants = set (strictDescendantIds n), active = True\<rparr>\<rparr>)"
proof -
  from assms(4) have n: "n \<in> set (subtrees T)" by (rule withAncestors_subtree)
  from indexOf_lookup [OF assms(1) n] have idx: "treeIndex st (nid n) = Some n"
    by (simp add: assms(3))
  then have ne: "treeIndex st \<noteq> Map.empty" by auto
  have root: "ancestorsLoop (indexOf T) T acc = Some (acc \<union> set [])" for acc
    using parentsOK_parentId [OF assms(2)] by (subst ancestorsLoop.simps) simp
  from climb [OF assms(1) subtrees_self assms(2) root assms(4), of "{}"]
  have "ancestorsLoop (treeIndex st) n {} = Some (set as)" by (simp add: assms(3))
  with idx ne assms(5) show ?thesis
    by (simp add: computeFocus_def walk_ids clearedFocus_def Let_def)
qed

text \<open>
  The tree and the index that the focus works on are those the builder leaves: started on
  an empty index, buildTree returns a tree whose parent ids agree with it and, when the
  ids are unique, leaves the index of that tree.
\<close>

lemma indexOf_Node:
  "indexOf (Node i d p f cs) =
     (map_of (concat (map (\<lambda>c. map (\<lambda>n. (nid n, n)) (subtrees c)) cs)))(i \<mapsto> Node i d p f cs)"
  by (simp add: indexOf_def map_concat comp_def)

lemma dom_index_list:
  "dom (map_of (concat (map (\<lambda>c. map (\<lambda>n. (nid n, n)) (subtrees c)) cs))) = set (concat (map ids cs))"
proof -
  have "map fst (concat (map (\<lambda>c. map (\<lambda>n. (nid n, n)) (subtrees c)) cs)) = concat (map ids cs)"
    by (simp add: map_concat comp_def ids_def [abs_def])
  moreover have "dom (map_of (concat (map (\<lambda>c. map (\<lambda>n. (nid n, n)) (subtrees c)) cs))) =
      set (map fst (concat (map (\<lambda>c. map (\<lambda>n. (nid n, n)) (subtrees c)) cs)))"
    by (simp only: dom_map_of_conv_image_fst set_map)
  ultimately show ?thesis by (simp only:)
qed

lemma buildTree_index:
  "buildTree fuel i st dep par = Some (Some t, st') \<Longrightarrow>
     parentsOK par t \<and> (distinct (ids t) \<longrightarrow> treeIndex st' = treeIndex st ++ indexOf t)"
  "buildKids fuel ks st dep i = Some (cs, st') \<Longrightarrow>
     (\<forall>c \<in> set cs. parentsOK (Some i) c) \<and>
     (distinct (concat (map ids cs)) \<longrightarrow>
        treeIndex st' =
          treeIndex st ++ map_of (concat (map (\<lambda>c. map (\<lambda>n. (nid n, n)) (subtrees c)) cs)))"
proof (induction fuel i st dep par and fuel ks st dep i arbitrary: t st' and cs st'
    rule: buildTree_buildKids.induct)
  case (1 fuel i st dep par)
  from "1.prems" obtain item where item: "nodes st i = Some item"
    by (cases "nodes st i") (auto simp: buildTree.simps)
  with "1.prems" obtain fuel' where fuel: "fuel = Suc fuel'"
    by (cases fuel) (auto simp: buildTree.simps)
  let ?st1 = "st\<lparr>depthMap := (depthMap st)(i \<mapsto> dep)\<rparr>"
  from "1.prems" item fuel obtain cs st2 where
    k: "buildKids fuel' (itemKids item) ?st1 (dep + 1) i = Some (cs, st2)"
    and t: "t = Node i dep par () cs"
    and s: "st' = st2\<lparr>treeIndex := (treeIndex st2)(i \<mapsto> Node i dep par () cs)\<rparr>"
    by (auto simp: buildTree_present split: option.splits)
  note ih = "1.IH" [OF item fuel refl k]
  from ih have p: "parentsOK par t" by (simp add: t)
  have "treeIndex st' = treeIndex st ++ indexOf t" if "distinct (ids t)"
  proof -
    from that have "distinct (concat (map ids cs))" by (simp add: t ids_Node)
    with ih have "treeIndex st2 =
        treeIndex st ++ map_of (concat (map (\<lambda>c. map (\<lambda>n. (nid n, n)) (subtrees c)) cs))"
      by simp
    then show ?thesis by (simp add: s t indexOf_Node)
  qed
  with p show ?case by blast
next
  case (2 fuel st dep par)
  then show ?case by simp
next
  case (3 fuel kid rest st dep par)
  from "3.prems" obtain child st1 cs' where
    b: "buildTree fuel kid st dep (Some par) = Some (child, st1)" and
    k: "buildKids fuel rest st1 dep par = Some (cs', st')" and
    cs: "cs = (case child of None \<Rightarrow> cs' | Some c \<Rightarrow> c # cs')"
    by (auto split: option.splits)
  note ih2 = "3.IH"(2) [OF b refl k]
  show ?case
  proof (cases child)
    case None
    with b have "st1 = st" using buildTree_null [of fuel kid st dep "Some par" st1] by simp
    with ih2 cs None show ?thesis by simp
  next
    case (Some c)
    note ih1 = "3.IH"(1) [OF b [unfolded Some]]
    let ?pairs = "\<lambda>c. map (\<lambda>n. (nid n, n)) (subtrees c)"
    have "treeIndex st' = treeIndex st ++ map_of (concat (map ?pairs cs))"
      if d: "distinct (concat (map ids cs))"
    proof -
      from d cs Some have dc: "distinct (ids c)" and dr: "distinct (concat (map ids cs'))"
        and disj: "set (ids c) \<inter> set (concat (map ids cs')) = {}"
        by simp_all
      from ih1 dc have a: "treeIndex st1 = treeIndex st ++ indexOf c" by simp
      from ih2 dr have b': "treeIndex st' = treeIndex st1 ++ map_of (concat (map ?pairs cs'))" by simp
      have "map fst (?pairs c) = ids c" by (simp add: ids_def comp_def)
      moreover have "dom (indexOf c) = set (map fst (?pairs c))"
        unfolding indexOf_def by (simp only: dom_map_of_conv_image_fst set_map)
      ultimately have "dom (indexOf c) = set (ids c)" by (simp only:)
      with disj have "dom (indexOf c) \<inter> dom (map_of (concat (map ?pairs cs'))) = {}"
        by (simp add: dom_index_list)
      then have comm: "indexOf c ++ map_of (concat (map ?pairs cs')) =
          map_of (concat (map ?pairs cs')) ++ indexOf c"
        by (rule map_add_comm)
      have "treeIndex st' = (treeIndex st ++ indexOf c) ++ map_of (concat (map ?pairs cs'))"
        using a b' by simp
      also have "\<dots> = treeIndex st ++ (indexOf c ++ map_of (concat (map ?pairs cs')))"
        by (rule map_add_assoc [symmetric])
      also have "\<dots> = treeIndex st ++ (map_of (concat (map ?pairs cs')) ++ indexOf c)"
        by (simp only: comm)
      also have "map_of (concat (map ?pairs cs')) ++ indexOf c = map_of (concat (map ?pairs cs))"
        by (simp add: cs Some indexOf_def)
      finally show ?thesis .
    qed
    with ih1 ih2 cs Some show ?thesis by simp
  qed
qed

lemma buildTree_fresh_index:
  "buildTree fuel i st 0 None = Some (Some t, st') \<Longrightarrow> treeIndex st = Map.empty \<Longrightarrow>
     distinct (ids t) \<Longrightarrow> parentsOK None t \<and> treeIndex st' = indexOf t"
  using buildTree_index(1) [of fuel i st 0 None t st'] by simp

lemma computeFocus_unselected:
  "computeFocus st (Some 0) = Some (st\<lparr>focus := clearedFocus\<rparr>) \<and>
   computeFocus st None = Some (st\<lparr>focus := clearedFocus\<rparr>)"
  by (simp add: computeFocus_def Let_def)

text \<open>
  C5 (as the code has it). For a tree with unique ids and parent ids that agree with it,
  indexed by the tree index (as buildTree leaves them), and a selected id other than 0
  that is in the index:
  ancestors is exactly the set of the ids on the path from the selection up to the root,
  the selection excluded (the root is in it exactly when the selection is not the root),
  descendants is exactly the set of the ids of the strict descendants of the selection,
  and active is true. For an id that is not in the index both sets are empty and active
  is false. The id 0 counts as no selection (\<open>!id\<close>): for the id 0, whatever the
  index holds, and for no id at all, both sets are empty and active is false.
\<close>

theorem computeFocus_sets:
  fixes T :: "unit node"
  shows "(distinct (ids T) \<longrightarrow> parentsOK None T \<longrightarrow> treeIndex st = indexOf T \<longrightarrow>
      (n, as) \<in> set (withAncestors [] T) \<longrightarrow> nid n \<noteq> 0 \<longrightarrow>
        computeFocus st (Some (nid n)) =
          Some (st\<lparr>focus := \<lparr>ancestors = set as, descendants = set (strictDescendantIds n),
                               active = True\<rparr>\<rparr>) \<and>
        (nid T \<in> set as \<longleftrightarrow> n \<noteq> T)) \<and>
     (treeIndex st i = None \<longrightarrow>
        computeFocus st (Some i) =
          Some (st\<lparr>focus := \<lparr>ancestors = {}, descendants = {}, active = False\<rparr>\<rparr>)) \<and>
     computeFocus st (Some 0) =
       Some (st\<lparr>focus := \<lparr>ancestors = {}, descendants = {}, active = False\<rparr>\<rparr>) \<and>
     computeFocus st None =
       Some (st\<lparr>focus := \<lparr>ancestors = {}, descendants = {}, active = False\<rparr>\<rparr>)"
  using computeFocus_present [of T st n as] root_in_ancestors [of n as T]
    computeFocus_absent [of st i] computeFocus_unselected [of st]
  by (simp add: clearedFocus_def)

text \<open>
  In the tree of nine nodes: the selection 2 (a child of the root, with the child 3), the
  selection 3, the id 77, which the index does not have, the id 0 and no id.
\<close>

theorem computeFocus_sets_witness:
  "distinct (ids crowdedTree) \<and> parentsOK None crowdedTree \<and>
   (Node 2 1 (Some 1) () [leaf 3 2 2], [1]) \<in> set (withAncestors [] crowdedTree) \<and>
   computeFocus (emptyState\<lparr>treeIndex := indexOf crowdedTree\<rparr>) (Some 2) =
     Some (emptyState\<lparr>treeIndex := indexOf crowdedTree,
       focus := \<lparr>ancestors = {1}, descendants = {3}, active = True\<rparr>\<rparr>) \<and>
   (leaf 3 2 2, [2, 1]) \<in> set (withAncestors [] crowdedTree) \<and>
   computeFocus (emptyState\<lparr>treeIndex := indexOf crowdedTree\<rparr>) (Some 3) =
     Some (emptyState\<lparr>treeIndex := indexOf crowdedTree,
       focus := \<lparr>ancestors = {1, 2}, descendants = {}, active = True\<rparr>\<rparr>) \<and>
   treeIndex (emptyState\<lparr>treeIndex := indexOf crowdedTree\<rparr>) 77 = None \<and>
   computeFocus (emptyState\<lparr>treeIndex := indexOf crowdedTree\<rparr>) (Some 77) =
     Some (emptyState\<lparr>treeIndex := indexOf crowdedTree,
       focus := \<lparr>ancestors = {}, descendants = {}, active = False\<rparr>\<rparr>) \<and>
   computeFocus (emptyState\<lparr>treeIndex := indexOf crowdedTree\<rparr>) (Some 0) =
     Some (emptyState\<lparr>treeIndex := indexOf crowdedTree,
       focus := \<lparr>ancestors = {}, descendants = {}, active = False\<rparr>\<rparr>) \<and>
   computeFocus (emptyState\<lparr>treeIndex := indexOf crowdedTree\<rparr>) None =
     Some (emptyState\<lparr>treeIndex := indexOf crowdedTree,
       focus := \<lparr>ancestors = {}, descendants = {}, active = False\<rparr>\<rparr>)"
proof -
  let ?st = "emptyState\<lparr>treeIndex := indexOf crowdedTree\<rparr>"
  have d: "distinct (ids crowdedTree)"
    by (simp add: ids_def crowdedTree_def leaf_def)
  have p: "parentsOK None crowdedTree"
    by (simp add: crowdedTree_def leaf_def)
  have i: "treeIndex ?st = indexOf crowdedTree" by simp
  have m2: "(Node 2 1 (Some 1) () [leaf 3 2 2], [1]) \<in> set (withAncestors [] crowdedTree)"
    and m3: "(leaf 3 2 2, [2, 1]) \<in> set (withAncestors [] crowdedTree)"
    by (simp_all add: crowdedTree_def leaf_def)
  have a: "treeIndex ?st 77 = None"
    by (simp add: indexOf_def crowdedTree_def leaf_def)
  have f2: "computeFocus ?st (Some 2) =
      Some (?st\<lparr>focus := \<lparr>ancestors = {1}, descendants = {3}, active = True\<rparr>\<rparr>)"
    using computeFocus_sets [of crowdedTree ?st "Node 2 1 (Some 1) () [leaf 3 2 2]" "[1]" 77] d p i m2
    by (simp add: strictDescendantIds_def ids_def leaf_def)
  have f3: "computeFocus ?st (Some 3) =
      Some (?st\<lparr>focus := \<lparr>ancestors = {1, 2}, descendants = {}, active = True\<rparr>\<rparr>)"
    using computeFocus_sets [of crowdedTree ?st "leaf 3 2 2" "[2, 1]" 77] d p i m3
    by (simp add: strictDescendantIds_def ids_def leaf_def insert_commute)
  have f77: "computeFocus ?st (Some 77) =
      Some (?st\<lparr>focus := \<lparr>ancestors = {}, descendants = {}, active = False\<rparr>\<rparr>)"
    using computeFocus_sets [of crowdedTree ?st "leaf 3 2 2" "[2, 1]" 77] a by simp
  have f0: "computeFocus ?st (Some 0) =
      Some (?st\<lparr>focus := \<lparr>ancestors = {}, descendants = {}, active = False\<rparr>\<rparr>)"
    and fN: "computeFocus ?st None =
      Some (?st\<lparr>focus := \<lparr>ancestors = {}, descendants = {}, active = False\<rparr>\<rparr>)"
    using computeFocus_sets [of crowdedTree ?st "leaf 3 2 2" "[2, 1]" 77] by simp_all
  from d p m2 f2 m3 f3 a f77 f0 fN show ?thesis by simp
qed

text \<open>
  A root with the id 0 and one child: the index has the id 0, and selecting it leaves the
  focus cleared, although the node has a strict descendant.
\<close>

theorem computeFocus_zero_counterexample:
  "distinct (ids zeroTree) \<and> parentsOK None zeroTree \<and> treeIndex zeroState = indexOf zeroTree \<and>
   treeIndex zeroState 0 = Some zeroTree \<and> strictDescendantIds zeroTree = [1] \<and>
   computeFocus zeroState (Some 0) =
     Some (zeroState\<lparr>focus := \<lparr>ancestors = {}, descendants = {}, active = False\<rparr>\<rparr>)"
  by (simp add: computeFocus_def clearedFocus_def zeroState_def zeroTree_def leaf_def ids_def
      indexOf_def strictDescendantIds_def Let_def)

section \<open>Properties of the bounded-concurrency fetch\<close>

lemma pump_workLeft: "workLeft (pump c p) \<le> workLeft p"
proof (induction c p rule: pump.induct)
  case (1 c p)
  show ?case
  proof (cases "queue p")
    case Nil
    then show ?thesis by (simp add: pump.simps [of c p])
  next
    case (Cons i rest)
    show ?thesis
    proof (cases "length (inflight p) < c")
      case False
      with Cons show ?thesis by (simp add: pump.simps [of c p])
    next
      case True
      show ?thesis
      proof (cases "items p i \<noteq> None")
        case has: True
        from "1.IH"(1) [OF Cons True has] Cons True has show ?thesis
          by (simp add: pump.simps [of c p] workLeft_def)
      next
        case False
        from "1.IH"(2) [OF Cons True False] Cons True False show ?thesis
          by (simp add: pump.simps [of c p] workLeft_def)
      qed
    qed
  qed
qed

lemma sum_list_update_less:
  "k < length xs \<Longrightarrow> g (xs ! k) = 2 \<Longrightarrow> g y = 1 \<Longrightarrow>
     Suc (sum_list (map g (xs[k := y]))) = sum_list (map (g :: 'a \<Rightarrow> nat) xs)"
proof (induction xs arbitrary: k)
  case Nil
  then show ?case by simp
next
  case (Cons x xs)
  then show ?case by (cases k) simp_all
qed

lemma sum_list_remove_less:
  "k < length xs \<Longrightarrow> g (xs ! k) = 1 \<Longrightarrow>
     Suc (sum_list (map g (take k xs @ drop (Suc k) xs))) = sum_list (map (g :: 'a \<Rightarrow> nat) xs)"
proof (induction xs arbitrary: k)
  case Nil
  then show ?case by simp
next
  case (Cons x xs)
  then show ?case by (cases k) simp_all
qed

lemma deliver_inflight:
  "inflight (deliver f k p) = (inflight p)[k := (fst (inflight p ! k), True)]"
  "queue (deliver f k p) = queue p"
  by (simp_all add: deliver_def Let_def split: outcome.splits)

lemma deliver_workLeft:
  "k < length (inflight p) \<Longrightarrow> \<not> snd (inflight p ! k) \<Longrightarrow>
     Suc (workLeft (deliver f k p)) = workLeft p"
  using sum_list_update_less [of k "inflight p" "\<lambda>t. if snd t then 1 else 2" "(fst (inflight p ! k), True)"]
  by (simp add: workLeft_def deliver_inflight)

lemma retire_workLeft:
  "k < length (inflight p) \<Longrightarrow> snd (inflight p ! k) \<Longrightarrow> Suc (workLeft (retire k p)) = workLeft p"
  using sum_list_remove_less [of k "inflight p" "\<lambda>t. if snd t then 1 else 2"]
  by (simp add: workLeft_def retire_def)

lemma events_workLeft:
  "events f p b p' \<Longrightarrow> workLeft p' \<le> workLeft p \<and> (b \<longrightarrow> workLeft p' < workLeft p)"
proof (induction rule: events.induct)
  case (none f p)
  show ?case by simp
next
  case (delivered k p f b p')
  with deliver_workLeft [OF delivered.hyps(1,2), of f] show ?case by auto
next
  case (retired k p f b p')
  with retire_workLeft [OF retired.hyps(1,2)] show ?case by auto
qed

lemma wf_poolRound: "wf (poolRound c f)"
proof (rule wf_subset [OF wf_measure [of workLeft]])
  show "poolRound c f \<subseteq> measure workLeft"
    using events_workLeft pump_workLeft
    by (fastforce simp: poolRound_def intro: le_less_trans)
qed

lemma mainLoop_returns: "\<exists>r. mainLoop c f p r"
proof (induction "workLeft p" arbitrary: p rule: less_induct)
  case less
  show ?case
  proof (cases "inflight p = []")
    case True
    then show ?thesis using mainLoop.finished by blast
  next
    case False
    then have k: "0 < length (inflight p)" by simp
    have "\<exists>p'. events f p True p'"
    proof (cases "snd (inflight p ! 0)")
      case True
      with k show ?thesis using events.retired [OF k True events.none] by blast
    next
      case nd: False
      have k': "0 < length (inflight (deliver f 0 p))" "snd (inflight (deliver f 0 p) ! 0)"
        using k by (simp_all add: deliver_inflight)
      from events.delivered [OF k nd events.retired [OF k' events.none]]
      show ?thesis by blast
    qed
    then obtain p' where e: "events f p True p'" by blast
    from events_workLeft [OF e] pump_workLeft [of c p']
    have "workLeft (pump c p') < workLeft p" by simp
    from less [OF this] obtain r where "mainLoop c f (pump c p') r" by blast
    from mainLoop.round [OF False e this] show ?thesis by blast
  qed
qed

lemma poolInvI:
  assumes "\<And>i item. items p i = Some item \<Longrightarrow> i \<in> set ids' \<and> f i = Item item"
    and "\<And>i item. i \<in> set ids' \<Longrightarrow> f i = Item item \<Longrightarrow>
      items p i = Some item \<or> i \<in> set (queue p) \<or> (i, False) \<in> set (inflight p)"
    and "set (queue p) \<subseteq> set ids'" and "fst ` set (inflight p) \<subseteq> set ids'"
  shows "poolInv f ids' p"
  unfolding poolInv_def using assms by blast

lemma poolInvD:
  assumes "poolInv f ids' p"
  shows "items p i = Some item \<Longrightarrow> i \<in> set ids' \<and> f i = Item item"
    and "i \<in> set ids' \<Longrightarrow> f i = Item item \<Longrightarrow>
      items p i = Some item \<or> i \<in> set (queue p) \<or> (i, False) \<in> set (inflight p)"
    and "set (queue p) \<subseteq> set ids'" and "fst ` set (inflight p) \<subseteq> set ids'"
  using assms unfolding poolInv_def by blast+

lemma pump_inv:
  "poolInv f ids' p \<Longrightarrow> poolInv f ids' (pump c p)"
proof (induction c p rule: pump.induct)
  case (1 c p)
  show ?case
  proof (cases "queue p")
    case Nil
    with "1.prems" show ?thesis by (simp add: pump.simps [of c p])
  next
    case (Cons i rest)
    show ?thesis
    proof (cases "length (inflight p) < c")
      case False
      with Cons "1.prems" show ?thesis by (simp add: pump.simps [of c p])
    next
      case True
      show ?thesis
      proof (cases "items p i \<noteq> None")
        case has: True
        have "poolInv f ids' (p\<lparr>queue := rest\<rparr>)"
        proof (rule poolInvI)
          fix j item assume "items (p\<lparr>queue := rest\<rparr>) j = Some item"
          then show "j \<in> set ids' \<and> f j = Item item"
            using poolInvD(1) [OF "1.prems"] by simp
        next
          fix j item assume j: "j \<in> set ids'" "f j = Item item"
          from poolInvD(2) [OF "1.prems" j] Cons
          consider "items p j = Some item" | "j = i" | "j \<in> set rest" | "(j, False) \<in> set (inflight p)"
            by auto
          then show "items (p\<lparr>queue := rest\<rparr>) j = Some item \<or> j \<in> set (queue (p\<lparr>queue := rest\<rparr>)) \<or>
              (j, False) \<in> set (inflight (p\<lparr>queue := rest\<rparr>))"
          proof cases
            case 2
            from has obtain item' where i': "items p i = Some item'" by auto
            from poolInvD(1) [OF "1.prems" i'] j 2 have "item' = item" by simp
            with i' 2 show ?thesis by simp
          qed simp_all
        next
          show "set (queue (p\<lparr>queue := rest\<rparr>)) \<subseteq> set ids'"
            using poolInvD(3) [OF "1.prems"] Cons by auto
          show "fst ` set (inflight (p\<lparr>queue := rest\<rparr>)) \<subseteq> set ids'"
            using poolInvD(4) [OF "1.prems"] by simp
        qed
        from "1.IH"(1) [OF Cons True has this] Cons True has show ?thesis
          by (simp add: pump.simps [of c p])
      next
        case False
        let ?p = "p\<lparr>queue := rest, inflight := inflight p @ [(i, False)]\<rparr>"
        have "poolInv f ids' ?p"
        proof (rule poolInvI)
          fix j item assume "items ?p j = Some item"
          then show "j \<in> set ids' \<and> f j = Item item"
            using poolInvD(1) [OF "1.prems"] by simp
        next
          fix j item assume j: "j \<in> set ids'" "f j = Item item"
          from poolInvD(2) [OF "1.prems" j] Cons
          show "items ?p j = Some item \<or> j \<in> set (queue ?p) \<or> (j, False) \<in> set (inflight ?p)"
            by auto
        next
          show "set (queue ?p) \<subseteq> set ids'"
            using poolInvD(3) [OF "1.prems"] Cons by auto
          show "fst ` set (inflight ?p) \<subseteq> set ids'"
            using poolInvD(3,4) [OF "1.prems"] Cons by auto
        qed
        from "1.IH"(2) [OF Cons True False this] Cons True False show ?thesis
          by (simp add: pump.simps [of c p])
      qed
    qed
  qed
qed

lemma pump_full:
  "queue (pump c p) = [] \<or> c \<le> length (inflight (pump c p))"
proof (induction c p rule: pump.induct)
  case (1 c p)
  show ?case
  proof (cases "queue p")
    case Nil
    then show ?thesis by (simp add: pump.simps [of c p])
  next
    case (Cons i rest)
    show ?thesis
    proof (cases "length (inflight p) < c")
      case False
      with Cons show ?thesis by (simp add: pump.simps [of c p])
    next
      case True
      show ?thesis
      proof (cases "items p i \<noteq> None")
        case has: True
        from "1.IH"(1) [OF Cons True has] Cons True has show ?thesis
          by (simp add: pump.simps [of c p])
      next
        case False
        from "1.IH"(2) [OF Cons True False] Cons True False show ?thesis
          by (simp add: pump.simps [of c p])
      qed
    qed
  qed
qed

lemma in_set_update_other:
  "(j, False) \<in> set xs \<Longrightarrow> j \<noteq> fst (xs ! k) \<Longrightarrow> (j, False) \<in> set (xs[k := (fst (xs ! k), True)])"
proof -
  assume a: "(j, False) \<in> set xs" and n: "j \<noteq> fst (xs ! k)"
  then obtain m where m: "m < length xs" "xs ! m = (j, False)" by (auto simp: in_set_conv_nth)
  with n have "m \<noteq> k" by auto
  with m have "(xs[k := (fst (xs ! k), True)]) ! m = (j, False)" by simp
  with m(1) show ?thesis by (metis length_list_update nth_mem)
qed

lemma in_set_remove_other:
  "t \<in> set xs \<Longrightarrow> t \<noteq> xs ! k \<Longrightarrow> t \<in> set (take k xs @ drop (Suc k) xs)"
proof -
  assume a: "t \<in> set xs" and n: "t \<noteq> xs ! k"
  have "set xs \<subseteq> set (take k xs) \<union> {xs ! k} \<union> set (drop (Suc k) xs)"
  proof (cases "k < length xs")
    case True
    then have "xs = take k xs @ xs ! k # drop (Suc k) xs" by (rule id_take_nth_drop)
    then have "set xs = set (take k xs @ xs ! k # drop (Suc k) xs)" by simp
    then show ?thesis by auto
  next
    case False
    then show ?thesis by auto
  qed
  with a n show ?thesis by auto
qed

lemma deliver_inv:
  assumes inv: "poolInv f ids' p" and h: "honest f ids'" and k: "k < length (inflight p)"
  shows "poolInv f ids' (deliver f k p)"
proof -
  let ?i = "fst (inflight p ! k)"
  from k have "inflight p ! k \<in> set (inflight p)" by simp
  with poolInvD(4) [OF inv] have i: "?i \<in> set ids'" by auto
  have it: "items (deliver f k p) =
      (case f ?i of Item item \<Rightarrow> (items p)(?i \<mapsto> item) | _ \<Rightarrow> items p)"
    using h i by (auto simp: deliver_def Let_def honest_def split: outcome.splits)
  show ?thesis
  proof (rule poolInvI)
    fix j item assume "items (deliver f k p) j = Some item"
    then show "j \<in> set ids' \<and> f j = Item item"
      using poolInvD(1) [OF inv, of j item] i
      by (auto simp: it split: outcome.splits if_splits)
  next
    fix j item assume j: "j \<in> set ids'" "f j = Item item"
    show "items (deliver f k p) j = Some item \<or> j \<in> set (queue (deliver f k p)) \<or>
        (j, False) \<in> set (inflight (deliver f k p))"
    proof (cases "j = ?i")
      case True
      with j show ?thesis by (simp add: it)
    next
      case False
      from poolInvD(2) [OF inv j]
      consider "items p j = Some item" | "j \<in> set (queue p)" | "(j, False) \<in> set (inflight p)"
        by blast
      then show ?thesis
      proof cases
        case 1
        with False show ?thesis by (simp add: it split: outcome.splits)
      next
        case 2
        then show ?thesis by (simp add: deliver_inflight)
      next
        case 3
        from in_set_update_other [OF 3 False] show ?thesis by (simp add: deliver_inflight)
      qed
    qed
  next
    show "set (queue (deliver f k p)) \<subseteq> set ids'"
      using poolInvD(3) [OF inv] by (simp add: deliver_inflight)
    have s1: "fst ` set ((inflight p)[k := (?i, True)]) \<subseteq> insert ?i (fst ` set (inflight p))"
      using set_update_subset_insert [of "inflight p" k "(?i, True)"] by auto
    have s2: "insert ?i (fst ` set (inflight p)) \<subseteq> set ids'"
      using poolInvD(4) [OF inv] i by simp
    from s1 s2 have "fst ` set ((inflight p)[k := (?i, True)]) \<subseteq> set ids'"
      by (rule subset_trans)
    then show "fst ` set (inflight (deliver f k p)) \<subseteq> set ids'"
      by (simp add: deliver_inflight)
  qed
qed

lemma retire_inv:
  assumes inv: "poolInv f ids' p" and k: "k < length (inflight p)" and d: "snd (inflight p ! k)"
  shows "poolInv f ids' (retire k p)"
proof (rule poolInvI)
  fix j item assume "items (retire k p) j = Some item"
  then show "j \<in> set ids' \<and> f j = Item item"
    using poolInvD(1) [OF inv, of j item] by (simp add: retire_def)
next
  fix j item assume j: "j \<in> set ids'" "f j = Item item"
  from poolInvD(2) [OF inv j]
  consider "items p j = Some item" | "j \<in> set (queue p)" | "(j, False) \<in> set (inflight p)"
    by blast
  then show "items (retire k p) j = Some item \<or> j \<in> set (queue (retire k p)) \<or>
      (j, False) \<in> set (inflight (retire k p))"
  proof cases
    case 3
    from d have "(j, False) \<noteq> inflight p ! k" by (metis snd_conv)
    from in_set_remove_other [OF 3 this] show ?thesis by (simp add: retire_def)
  qed (simp_all add: retire_def)
next
  show "set (queue (retire k p)) \<subseteq> set ids'"
    using poolInvD(3) [OF inv] by (simp add: retire_def)
  have "set (take k (inflight p) @ drop (Suc k) (inflight p)) \<subseteq> set (inflight p)"
    using set_take_subset [of k "inflight p"] set_drop_subset [of "Suc k" "inflight p"] by auto
  with poolInvD(4) [OF inv] show "fst ` set (inflight (retire k p)) \<subseteq> set ids'"
    by (auto simp: retire_def)
qed

lemma events_inv:
  "events f p b p' \<Longrightarrow> honest f ids' \<Longrightarrow> poolInv f ids' p \<Longrightarrow> poolInv f ids' p'"
proof (induction rule: events.induct)
  case (none f p)
  then show ?case by simp
next
  case (delivered k p f b p')
  from delivered.IH [OF delivered.prems(1) deliver_inv [OF delivered.prems(2,1) delivered.hyps(1)]]
  show ?case .
next
  case (retired k p f b p')
  from retired.IH [OF retired.prems(1) retire_inv [OF retired.prems(2) retired.hyps(1,2)]]
  show ?case .
qed

lemma mainLoop_result:
  "mainLoop c f p r \<Longrightarrow> 0 < c \<Longrightarrow> honest f ids' \<Longrightarrow> poolInv f ids' p \<Longrightarrow>
     queue p = [] \<or> c \<le> length (inflight p) \<Longrightarrow> r = expected f ids'"
proof (induction rule: mainLoop.induct)
  case (finished p c f)
  then have q: "queue p = []" by auto
  show ?case
  proof
    fix i
    show "items p i = expected f ids' i"
    proof (cases "items p i")
      case None
      with poolInvD(2) [OF finished.prems(3), of i] q finished.hyps
      show ?thesis by (auto simp: expected_def split: outcome.splits)
    next
      case (Some item)
      with poolInvD(1) [OF finished.prems(3) Some] show ?thesis by (simp add: expected_def)
    qed
  qed
next
  case (round p f p' c r)
  from events_inv [OF round.hyps(2) round.prems(2,3)] have "poolInv f ids' p'" .
  then have "poolInv f ids' (pump c p')" by (rule pump_inv)
  from round.IH [OF round.prems(1,2) this pump_full] show ?case .
qed

lemma fetchPool_result:
  assumes "0 < c" "honest f ids'"
  shows "(\<exists>r. fetchPool c f ids' r) \<and> (\<forall>r. fetchPool c f ids' r \<longrightarrow> r = expected f ids')"
proof -
  let ?p0 = "\<lparr>queue = ids', inflight = [], items = Map.empty, fetched = 0\<rparr>"
  have "poolInv f ids' ?p0" by (rule poolInvI) simp_all
  then have "poolInv f ids' (pump c ?p0)" by (rule pump_inv)
  from mainLoop_result [OF _ assms this pump_full] mainLoop_returns [of c f "pump c ?p0"]
  show ?thesis unfolding fetchPool_def by blast
qed

text \<open>
  C7. A fetch that fails is caught and only its own item is missing. For the queue
  [a, b, d], where the fetch of a fails and the fetches of b and d give their items, and
  any concurrency of at least 1 (2 in the scenario, 12 in fetchItemsByIds): the function
  can return; whatever order the handlers run in, the map it returns holds the items of b
  and of d and nothing else, so a is absent; and the rounds of its loop cannot go on for
  ever.
\<close>

theorem fetch_failure_isolated:
  "0 < c \<longrightarrow> f a = Failed \<longrightarrow> f b = Item itemB \<longrightarrow> i_id itemB = b \<longrightarrow>
   f d = Item itemD \<longrightarrow> i_id itemD = d \<longrightarrow>
     (\<exists>r. fetchPool c f [a, b, d] r) \<and>
     (\<forall>r. fetchPool c f [a, b, d] r \<longrightarrow>
        r a = None \<and> r b = Some itemB \<and> r d = Some itemD \<and> dom r = {b, d}) \<and>
     wf (poolRound c f)"
proof (intro impI)
  assume c: "0 < c" and fa: "f a = Failed" and fb: "f b = Item itemB" "i_id itemB = b"
    and fd: "f d = Item itemD" "i_id itemD = d"
  have h: "honest f [a, b, d]"
    unfolding honest_def using fa fb fd by auto
  have e: "expected f [a, b, d] a = None" "expected f [a, b, d] b = Some itemB"
    "expected f [a, b, d] d = Some itemD"
    using fa fb fd by (simp_all add: expected_def)
  have "dom (expected f [a, b, d]) = {b, d}"
    using fa fb fd by (auto simp: expected_def dom_def split: if_splits outcome.splits)
  with e fetchPool_result [OF c h] wf_poolRound [of c f]
  show "(\<exists>r. fetchPool c f [a, b, d] r) \<and>
     (\<forall>r. fetchPool c f [a, b, d] r \<longrightarrow>
        r a = None \<and> r b = Some itemB \<and> r d = Some itemD \<and> dom r = {b, d}) \<and>
     wf (poolRound c f)"
    by blast
qed

text \<open>
  The queue [1, 2, 3] where the fetch of 1 fails, with the concurrency 2 and with the
  concurrency 12 of fetchItemsByIds.
\<close>

theorem fetch_failure_isolated_witness:
  "firstFails 1 = Failed \<and> firstFails 2 = Item (bareItem 2 []) \<and> i_id (bareItem 2 []) = 2 \<and>
   firstFails 3 = Item (bareItem 3 []) \<and> i_id (bareItem 3 []) = 3 \<and>
   (\<exists>r. fetchPool 2 firstFails [1, 2, 3] r \<and>
      r 1 = None \<and> r 2 = Some (bareItem 2 []) \<and> r 3 = Some (bareItem 3 []) \<and> dom r = {2, 3}) \<and>
   (\<exists>r. fetchItemsByIds firstFails [1, 2, 3] r \<and>
      r 1 = None \<and> r 2 = Some (bareItem 2 []) \<and> r 3 = Some (bareItem 3 []) \<and> dom r = {2, 3})"
proof -
  have f: "firstFails 1 = Failed" "firstFails 2 = Item (bareItem 2 [])" "i_id (bareItem 2 []) = 2"
    "firstFails 3 = Item (bareItem 3 [])" "i_id (bareItem 3 []) = 3"
    by (simp_all add: firstFails_def bareItem_def)
  have two: "(0::nat) < 2" and twelve: "(0::nat) < 12" by simp_all
  note t2 = fetch_failure_isolated [of 2 firstFails 1 2 "bareItem 2 []" 3 "bareItem 3 []",
      rule_format, OF two f]
  note t12 = fetch_failure_isolated [of 12 firstFails 1 2 "bareItem 2 []" 3 "bareItem 3 []",
      rule_format, OF twelve f]
  from t2 have e2: "\<exists>r. fetchPool 2 firstFails [1, 2, 3] r \<and>
      r 1 = None \<and> r 2 = Some (bareItem 2 []) \<and> r 3 = Some (bareItem 3 []) \<and> dom r = {2, 3}"
    by blast
  from t12 have e12: "\<exists>r. fetchItemsByIds firstFails [1, 2, 3] r \<and>
      r 1 = None \<and> r 2 = Some (bareItem 2 []) \<and> r 3 = Some (bareItem 3 []) \<and> dom r = {2, 3}"
    unfolding fetchItemsByIds_def by blast
  from f e2 e12 show ?thesis by (intro conjI)
qed

end
